theory Spec2Isabelle
  imports Complex_Main "HOL-Library.Word" "HOL-Library.Log_Nat"
begin

unbundle bit_operations_syntax

section \<open>The timer queue of libt.c\<close>

subsection \<open>Values of type double\<close>

text \<open>
  A C \<open>double\<close> is an IEEE 754 binary64 number: not-a-number, one of the two
  infinities, or a finite value, which is carried as the real number it denotes (the two
  zeros are one value). Every arithmetic operation computes the exact result and rounds
  it with \<open>fl\<close>, to the nearest binary64 number, a tie to the one with an even
  significand, and to an infinity on overflow.
\<close>

datatype double = NaN | NInf | Fin real | PInf

text \<open>The exponent of the binade of a positive \<open>x\<close>: \<open>2 powi ilog2 x \<le> x < 2 powi (ilog2 x + 1)\<close>.\<close>

definition ilog2 :: "real \<Rightarrow> int" where
  "ilog2 x = (if 1 \<le> x then bitlen \<lfloor>x\<rfloor> - 1 else - bitlen (\<lceil>1 / x\<rceil> - 1))"

text \<open>Rounding to the nearest integer, a tie to the even one.\<close>

definition rne :: "real \<Rightarrow> int" where
  "rne y = (let f = \<lfloor>y\<rfloor>; r = y - of_int f
            in if r < 1 / 2 then f else if 1 / 2 < r then f + 1
               else if even f then f else f + 1)"

text \<open>
  Rounding of a real to binary64: a significand of 53 bits, the smallest exponent of the
  unit in the last place is \<open>- 1074\<close> (subnormal numbers), and a rounded value of
  magnitude \<open>2 ^ 1024\<close> is an infinity.
\<close>

definition fl :: "real \<Rightarrow> double" where
  "fl x = (if x = 0 then Fin 0 else
     let e = max (ilog2 \<bar>x\<bar> - 52) (- 1074);
         y = of_int (rne (x / 2 powi e)) * 2 powi e
     in if 2 ^ 1024 \<le> \<bar>y\<bar> then (if 0 < x then PInf else NInf) else Fin y)"

fun isnan :: "double \<Rightarrow> bool" where
  "isnan NaN = True"
| "isnan _ = False"

fun dneg :: "double \<Rightarrow> double" where
  "dneg NaN = NaN"
| "dneg NInf = PInf"
| "dneg PInf = NInf"
| "dneg (Fin x) = Fin (- x)"

fun dadd :: "double \<Rightarrow> double \<Rightarrow> double" where
  "dadd (Fin x) (Fin y) = fl (x + y)"
| "dadd NaN _ = NaN"
| "dadd _ NaN = NaN"
| "dadd PInf NInf = NaN"
| "dadd NInf PInf = NaN"
| "dadd PInf _ = PInf"
| "dadd _ PInf = PInf"
| "dadd NInf _ = NInf"
| "dadd _ NInf = NInf"

definition dsub :: "double \<Rightarrow> double \<Rightarrow> double" where
  "dsub a b = dadd a (dneg b)"

fun dmul :: "double \<Rightarrow> double \<Rightarrow> double" where
  "dmul (Fin x) (Fin y) = fl (x * y)"
| "dmul NaN _ = NaN"
| "dmul _ NaN = NaN"
| "dmul PInf (Fin y) = (if y = 0 then NaN else if 0 < y then PInf else NInf)"
| "dmul NInf (Fin y) = (if y = 0 then NaN else if 0 < y then NInf else PInf)"
| "dmul (Fin x) PInf = (if x = 0 then NaN else if 0 < x then PInf else NInf)"
| "dmul (Fin x) NInf = (if x = 0 then NaN else if 0 < x then NInf else PInf)"
| "dmul PInf PInf = PInf"
| "dmul NInf NInf = PInf"
| "dmul PInf NInf = NInf"
| "dmul NInf PInf = NInf"

text \<open>The comparison \<open>a < b\<close>: false as soon as one side is not a number.\<close>

fun dlt :: "double \<Rightarrow> double \<Rightarrow> bool" where
  "dlt (Fin x) (Fin y) = (x < y)"
| "dlt NaN _ = False"
| "dlt _ NaN = False"
| "dlt _ NInf = False"
| "dlt NInf _ = True"
| "dlt PInf _ = False"
| "dlt _ PInf = True"

definition dgt :: "double \<Rightarrow> double \<Rightarrow> bool" where
  "dgt a b = dlt b a"

definition dle :: "double \<Rightarrow> double \<Rightarrow> bool" where
  "dle a b = (\<not> isnan a \<and> \<not> isnan b \<and> \<not> dlt b a)"

definition dge :: "double \<Rightarrow> double \<Rightarrow> bool" where
  "dge a b = dle b a"

text \<open>Truncation toward zero, the rounding of a C conversion from double to an integer type.\<close>

definition trunc :: "real \<Rightarrow> int" where
  "trunc x = (if 0 \<le> x then \<lfloor>x\<rfloor> else \<lceil>x\<rceil>)"

text \<open>
  Conversion of a double to a signed integer type of \<open>w\<close> bits. The C standard leaves the
  conversion undefined when the truncated value does not fit (and for NaN and the
  infinities): that is the result \<open>None\<close>.
\<close>

fun d2i :: "nat \<Rightarrow> double \<Rightarrow> int option" where
  "d2i w (Fin x) = (if - (2 ^ (w - 1)) \<le> trunc x \<and> trunc x < 2 ^ (w - 1) then Some (trunc x) else None)"
| "d2i w _ = None"

text \<open>
  \<open>fmod\<close> of the C library: the remainder has the sign of the dividend. The library
  computes it without a rounding error.
\<close>

fun fmod :: "double \<Rightarrow> double \<Rightarrow> double" where
  "fmod (Fin x) (Fin y) = (if y = 0 then NaN else Fin (x - y * of_int (trunc (x / y))))"
| "fmod (Fin x) PInf = Fin x"
| "fmod (Fin x) NInf = Fin x"
| "fmod _ _ = NaN"

subsection \<open>Timers and the two lists\<close>

text \<open>
  Modelled from the spec: \<open>libt.h\<close>, which defines the flag bits \<open>LIBT_ADD\<close>,
  \<open>LIBT_MOD\<close>, \<open>LIBT_RELATIVE\<close> and \<open>LIBT_REPEAT\<close>, is not part of the sources. The spec
  describes the flags as a bitset with the four options CREATE, UPDATE, RELATIVE and
  REPEAT; a flags argument is the set of the options that are on, and the test
  \<open>flags & LIBT_ADD\<close> is membership.
\<close>

datatype flag = LIBT_ADD | LIBT_MOD | LIBT_RELATIVE | LIBT_REPEAT

text \<open>
  \<open>struct timer\<close>. The links \<open>next\<close> and \<open>prev\<close> are represented by the position of the
  record in a list; \<open>addr\<close> is the address \<open>malloc\<close> returned for the record, \<open>fn\<close> and
  \<open>dat\<close> are the function pointer and the data pointer.
\<close>

record timer =
  addr :: nat
  fn :: nat
  dat :: nat
  wakeup :: double

text \<open>
  The static state \<open>s\<close> with its two lists, and the effects of the code on its
  environment: \<open>brk\<close> is the next address \<open>malloc\<close> hands out (it never hands out an
  address twice, so that a second \<open>free\<close> of a record shows in the log), \<open>freed\<close> lists the
  addresses passed to \<open>free\<close>, \<open>called\<close> the callbacks invoked, as (fn, dat), in order.
\<close>

record libt =
  timers :: "timer list"
  tmptimers :: "timer list"
  brk :: nat
  freed :: "nat list"
  called :: "(nat \<times> nat) list"

datatype error = EINVAL | ENOENT | EPERM

text \<open>A record is identified by its address: unlinking takes the record at \<open>a\<close> out.\<close>

definition unlink :: "nat \<Rightarrow> timer list \<Rightarrow> timer list" where
  "unlink a xs = filter (\<lambda>u. addr u \<noteq> a) xs"

text \<open>\<open>t_del\<close> takes the record out of the list it is on.\<close>

definition t_del :: "timer \<Rightarrow> libt \<Rightarrow> libt" where
  "t_del t s = s\<lparr>timers := unlink (addr t) (timers s), tmptimers := unlink (addr t) (tmptimers s)\<rparr>"

text \<open>\<open>t_add\<close> links the record in front of the element its second argument points to.\<close>

definition t_add :: "timer \<Rightarrow> timer list \<Rightarrow> timer list" where
  "t_add t rt = t # rt"

text \<open>The loop of \<open>t_add_sorted\<close>: pass every element that is not strictly greater.\<close>

fun t_scan :: "timer \<Rightarrow> timer list \<Rightarrow> timer list" where
  "t_scan t [] = t_add t []"
| "t_scan t (r # rs) = (if dlt (wakeup t) (wakeup r) then t_add t (r # rs) else r # t_scan t rs)"

definition t_add_sorted :: "timer \<Rightarrow> libt \<Rightarrow> libt" where
  "t_add_sorted t s = (let s1 = t_del t s in s1\<lparr>timers := t_scan t (timers s1)\<rparr>)"

text \<open>\<open>t_add(t, &s.tmptimers)\<close>, as \<open>libt_flush\<close> calls it.\<close>

definition t_add_tmp :: "timer \<Rightarrow> libt \<Rightarrow> libt" where
  "t_add_tmp t s = (let s1 = t_del t s in s1\<lparr>tmptimers := t_add t (tmptimers s1)\<rparr>)"

definition same_id :: "nat \<Rightarrow> nat \<Rightarrow> timer \<Rightarrow> bool" where
  "same_id f d t = (fn t = f \<and> dat t = d)"

definition t_find :: "nat \<Rightarrow> nat \<Rightarrow> libt \<Rightarrow> timer option" where
  "t_find f d s =
     (case find (same_id f d) (timers s) of
        Some t \<Rightarrow> Some t
      | None \<Rightarrow> find (same_id f d) (tmptimers s))"

definition free :: "timer \<Rightarrow> libt \<Rightarrow> libt" where
  "free t s = s\<lparr>freed := freed s @ [addr t]\<rparr>"

subsection \<open>The exported functions\<close>

text \<open>
  \<open>libt_add_timeoutx\<close>. The first argument is the value \<open>libt_now()\<close> returns when the
  function reads the clock (each path reads it at most once). \<open>malloc\<close> is taken to
  succeed, as the code does. The result pairs the return value with the new state.
\<close>

definition libt_add_timeoutx ::
  "real \<Rightarrow> double \<Rightarrow> nat \<Rightarrow> nat \<Rightarrow> flag set \<Rightarrow> libt \<Rightarrow> (error + unit) \<times> libt" where
  "libt_add_timeoutx now wakeuptime f d flags s =
     (if isnan wakeuptime then (Inl EINVAL, s)
      else case t_find f d s of
        None \<Rightarrow>
          if LIBT_ADD \<notin> flags then (Inl ENOENT, s)
          else
            let t = \<lparr>addr = brk s, fn = f, dat = d,
                     wakeup = (if LIBT_RELATIVE \<in> flags \<or> LIBT_REPEAT \<in> flags
                               then dadd wakeuptime (Fin now) else wakeuptime)\<rparr>
            in (Inr (), t_add_sorted t (s\<lparr>brk := Suc (brk s)\<rparr>))
      | Some t \<Rightarrow>
          if LIBT_MOD \<notin> flags then (Inl EPERM, s)
          else
            let w = (if LIBT_REPEAT \<in> flags then
                       (let w1 = dadd (wakeup t) wakeuptime
                        in if dlt w1 (Fin now) then dadd (Fin now) wakeuptime else w1)
                     else if LIBT_RELATIVE \<in> flags then dadd wakeuptime (Fin now)
                     else wakeuptime)
            in (Inr (), t_add_sorted (t\<lparr>wakeup := w\<rparr>) s))"

definition libt_remove_timeout :: "nat \<Rightarrow> nat \<Rightarrow> libt \<Rightarrow> libt" where
  "libt_remove_timeout f d s =
     (case t_find f d s of None \<Rightarrow> s | Some t \<Rightarrow> free t (t_del t s))"

definition libt_timeout_exist :: "nat \<Rightarrow> nat \<Rightarrow> libt \<Rightarrow> bool" where
  "libt_timeout_exist f d s = (t_find f d s \<noteq> None)"

text \<open>
  A callback is code of the application. What it does to the queue is a sequence of calls
  of \<open>libt_add_timeoutx\<close> and \<open>libt_remove_timeout\<close>, which may depend on the callback, its
  data and the state it is invoked in. An \<open>Add\<close> carries the clock value its call reads.
\<close>

datatype call = Add real double nat nat "flag set" | Remove nat nat

type_synonym callbacks = "nat \<Rightarrow> nat \<Rightarrow> libt \<Rightarrow> call list"

fun run_call :: "call \<Rightarrow> libt \<Rightarrow> libt" where
  "run_call (Add now w f d flags) s = snd (libt_add_timeoutx now w f d flags s)"
| "run_call (Remove f d) s = libt_remove_timeout f d s"

fun run_calls :: "call list \<Rightarrow> libt \<Rightarrow> libt" where
  "run_calls [] s = s"
| "run_calls (c # cs) s = run_calls cs (run_call c s)"

text \<open>\<open>t->fn(t->dat)\<close>: the invocation is logged, then the callback runs.\<close>

definition invoke :: "callbacks \<Rightarrow> timer \<Rightarrow> libt \<Rightarrow> libt" where
  "invoke cb t s = run_calls (cb (fn t) (dat t) s) (s\<lparr>called := called s @ [(fn t, dat t)]\<rparr>)"

text \<open>
  The first loop of \<open>libt_flush\<close>. A callback may put a due timer back, so the loop need
  not end: not returning is the value \<open>None\<close>. The counter is an \<open>int\<close> of 32 bits, read
  with \<open>sint\<close>. Past \<open>2 ^ 31 - 1\<close> the increment is an overflow, which C leaves undefined;
  it is modelled as the wrap-around of a two's complement machine.
\<close>

partial_function (option) flush_loop ::
  "callbacks \<Rightarrow> double \<Rightarrow> libt \<Rightarrow> 32 word \<Rightarrow> (32 word \<times> libt) option" where
  "flush_loop cb now s cnt =
     (case timers s of
        [] \<Rightarrow> Some (cnt, s)
      | t # _ \<Rightarrow>
          if dgt (wakeup t) now then Some (cnt, s)
          else flush_loop cb now (invoke cb t (t_add_tmp t s)) (cnt + 1))"

declare flush_loop.simps [code]

text \<open>The second loop of \<open>libt_flush\<close>, which frees what is left on \<open>s.tmptimers\<close>.\<close>

function flush_cleanup :: "libt \<Rightarrow> libt" where
  "flush_cleanup s =
     (case tmptimers s of
        [] \<Rightarrow> s
      | t # _ \<Rightarrow> flush_cleanup (free t (t_del t s)))"
  by pat_completeness auto
termination
proof (relation "measure (\<lambda>s. length (tmptimers s))")
  show "wf (measure (\<lambda>s. length (tmptimers s)))" by simp
next
  fix s :: libt and t ts
  assume "tmptimers s = t # ts"
  then have "length (tmptimers (free t (t_del t s))) \<le> length ts"
    by (simp add: free_def t_del_def unlink_def)
  with \<open>tmptimers s = t # ts\<close>
  show "(free t (t_del t s), s) \<in> measure (\<lambda>s. length (tmptimers s))" by simp
qed

declare flush_cleanup.simps [simp del]

text \<open>
  The reference time of \<open>libt_flush\<close>, \<open>libt_now() + 0.001\<close>: the constant is the binary64
  number nearest to 1/1000, and the sum is rounded.
\<close>

definition flush_ref :: "real \<Rightarrow> double" where
  "flush_ref now = dadd (Fin now) (fl (1 / 1000))"

definition libt_flush :: "callbacks \<Rightarrow> real \<Rightarrow> libt \<Rightarrow> (32 word \<times> libt) option" where
  "libt_flush cb now s =
     (case flush_loop cb (flush_ref now) s 0 of
        None \<Rightarrow> None
      | Some (cnt, s1) \<Rightarrow> Some (cnt, flush_cleanup s1))"

definition libt_next_wakeup :: "libt \<Rightarrow> double" where
  "libt_next_wakeup s = (case timers s of [] \<Rightarrow> Fin (- 1) | t # _ \<Rightarrow> wakeup t)"

text \<open>\<open>MAXRESULT\<close> is \<open>(~0U)/4\<close>, with an \<open>unsigned int\<close> of 32 bits.\<close>

definition MAXRESULT :: "32 word" where
  "MAXRESULT = (NOT 0) div 4"

text \<open>
  \<open>libt_get_waittime\<close>; \<open>now\<close> is the value of the clock it reads. The last \<open>return\<close>
  converts a double to \<open>int\<close>, which is undefined for a value that is not a number:
  that is the result \<open>None\<close>.
\<close>

definition libt_get_waittime :: "real \<Rightarrow> libt \<Rightarrow> int option" where
  "libt_get_waittime now s =
     (case timers s of
        [] \<Rightarrow> Some (- 1)
      | t # _ \<Rightarrow>
          let tmp = dmul (dsub (wakeup t) (Fin now)) (Fin 1000) in
          if dle tmp (Fin 0) then Some 0
          else if dgt tmp (Fin (real (unat MAXRESULT))) then Some (sint MAXRESULT)
          else d2i 32 tmp)"

definition libt_init :: libt where
  "libt_init = \<lparr>timers = [], tmptimers = [], brk = 0, freed = [], called = []\<rparr>"

text \<open>
  Calls of the application from outside a callback, and the state after a sequence of
  them; \<open>None\<close> when a \<open>libt_flush\<close> of the sequence does not return.
\<close>

datatype api = Schedule real double nat nat "flag set" | Cancel nat nat | Flush real

fun api_step :: "callbacks \<Rightarrow> api \<Rightarrow> libt \<Rightarrow> libt option" where
  "api_step cb (Schedule now w f d flags) s = Some (snd (libt_add_timeoutx now w f d flags s))"
| "api_step cb (Cancel f d) s = Some (libt_remove_timeout f d s)"
| "api_step cb (Flush now) s = map_option snd (libt_flush cb now s)"

fun api_run :: "callbacks \<Rightarrow> api list \<Rightarrow> libt \<Rightarrow> libt option" where
  "api_run cb [] s = Some s"
| "api_run cb (c # cs) s = (case api_step cb c s of None \<Rightarrow> None | Some s1 \<Rightarrow> api_run cb cs s1)"

subsection \<open>Wall time\<close>

text \<open>
  \<open>libt_timetointerval4\<close>. \<open>gmtoff_at\<close> stands for the time zone database:
  \<open>gmtoff_at t\<close> is \<open>localtime(&t)->tm_gmtoff\<close>, and \<open>None\<close> when \<open>localtime\<close> returns a
  null pointer, which the code dereferences. \<open>time_t\<close> and \<open>long\<close> have 64 bits; \<open>l2d\<close> is
  the conversion of a \<open>long\<close> to double. \<open>tti_value\<close> is the computation of \<open>value\<close>
  before the test against the pad; it is \<open>None\<close> when a conversion to \<open>time_t\<close> is
  undefined or a null pointer is dereferenced.
\<close>

definition l2d :: "int \<Rightarrow> double" where
  "l2d n = fl (of_int n)"

definition tti_value ::
  "(int \<Rightarrow> int option) \<Rightarrow> double \<Rightarrow> double \<Rightarrow> double \<Rightarrow> double option" where
  "tti_value gmtoff_at walltime interval offset =
     (if dge interval (Fin (3600 * 1.5)) then
        (case d2i 64 walltime of
           None \<Rightarrow> None
         | Some lwalltime \<Rightarrow>
             (case gmtoff_at lwalltime of
                None \<Rightarrow> None
              | Some gmtoff \<Rightarrow>
                  let v = dsub interval (fmod (dsub (dadd walltime (l2d gmtoff)) offset) interval)
                  in (case d2i 64 (dadd walltime v) of
                        None \<Rightarrow> None
                      | Some newtime \<Rightarrow>
                          (case gmtoff_at newtime of
                             None \<Rightarrow> None
                           | Some newoff \<Rightarrow>
                               if newoff \<noteq> gmtoff
                               then Some (dsub (dadd v (l2d gmtoff)) (l2d newoff))
                               else Some v))))
      else Some (dsub interval (fmod (dsub walltime offset) interval)))"

text \<open>The pad, floored at the binary64 number nearest to 1/1000.\<close>

definition tti_pad :: "double \<Rightarrow> double" where
  "tti_pad pad = (if dlt pad (fl (1 / 1000)) then fl (1 / 1000) else pad)"

text \<open>
  The result is \<open>None\<close> when the call does not return a value: the recursion does not
  end, or \<open>tti_value\<close> has no value.
\<close>

partial_function (option) libt_timetointerval4 ::
  "(int \<Rightarrow> int option) \<Rightarrow> double \<Rightarrow> double \<Rightarrow> double \<Rightarrow> double \<Rightarrow> double option" where
  "libt_timetointerval4 gmtoff_at walltime interval offset pad =
     (case tti_value gmtoff_at walltime interval offset of
        None \<Rightarrow> None
      | Some v \<Rightarrow>
          if dlt v (tti_pad pad) then
            Option.bind
              (libt_timetointerval4 gmtoff_at (dadd (dadd walltime v) (tti_pad pad))
                 interval offset (tti_pad pad))
              (\<lambda>r. Some (dadd (dadd v (tti_pad pad)) r))
          else Some v)"

declare libt_timetointerval4.simps [code]

subsection \<open>Properties of a state\<close>

text \<open>No later timer of the list has a smaller wakeup than an earlier one.\<close>

definition nondecreasing :: "timer list \<Rightarrow> bool" where
  "nondecreasing xs = sorted_wrt (\<lambda>a b. \<not> dlt (wakeup b) (wakeup a)) xs"

text \<open>The order \<open>\<le>\<close> on the wakeups of a list: every timer is at most every later one.\<close>

definition sorted_le :: "timer list \<Rightarrow> bool" where
  "sorted_le xs = sorted_wrt (\<lambda>a b. dle (wakeup a) (wakeup b)) xs"

definition ident :: "timer \<Rightarrow> nat \<times> nat" where
  "ident t = (fn t, dat t)"

definition live :: "libt \<Rightarrow> timer list" where
  "live s = timers s @ tmptimers s"

text \<open>At most one timer for an identity, over both lists.\<close>

definition unique_ids :: "libt \<Rightarrow> bool" where
  "unique_ids s = distinct (map ident (live s))"

text \<open>
  The records of the two lists are distinct allocated blocks, no block of the two lists
  has been freed, and no block has been freed twice.
\<close>

definition heap_ok :: "libt \<Rightarrow> bool" where
  "heap_ok s =
     (distinct (map addr (live s)) \<and> (\<forall>t \<in> set (live s). addr t < brk s)
      \<and> (\<forall>a \<in> set (freed s). a < brk s) \<and> (\<forall>t \<in> set (live s). addr t \<notin> set (freed s))
      \<and> distinct (freed s))"


text \<open>
  Conditions on the arguments of the scheduling calls: \<open>call_ok A\<close> and \<open>api_ok A\<close> say
  that a call, when it schedules, has arguments that satisfy \<open>A\<close>.
\<close>

fun call_ok :: "(real \<Rightarrow> double \<Rightarrow> nat \<Rightarrow> nat \<Rightarrow> flag set \<Rightarrow> bool) \<Rightarrow> call \<Rightarrow> bool" where
  "call_ok A (Add now w f d flags) = A now w f d flags"
| "call_ok A (Remove f d) = True"

fun api_ok :: "(real \<Rightarrow> double \<Rightarrow> nat \<Rightarrow> nat \<Rightarrow> flag set \<Rightarrow> bool) \<Rightarrow> api \<Rightarrow> bool" where
  "api_ok A (Schedule now w f d flags) = A now w f d flags"
| "api_ok A (Cancel f d) = True"
| "api_ok A (Flush now) = True"

text \<open>No timer of the two lists has a wakeup that is not a number.\<close>

definition no_nan :: "libt \<Rightarrow> bool" where
  "no_nan s = (\<forall>t \<in> set (timers s @ tmptimers s). \<not> isnan (wakeup t))"

text \<open>The time given is not infinite.\<close>

definition finite_args :: "real \<Rightarrow> double \<Rightarrow> nat \<Rightarrow> nat \<Rightarrow> flag set \<Rightarrow> bool" where
  "finite_args now w f d flags = (w \<noteq> PInf \<and> w \<noteq> NInf)"

text \<open>The clock value read and the time given are not negative.\<close>

definition nonneg_args :: "real \<Rightarrow> double \<Rightarrow> nat \<Rightarrow> nat \<Rightarrow> flag set \<Rightarrow> bool" where
  "nonneg_args now w f d flags = (0 \<le> now \<and> dle (Fin 0) w)"

text \<open>The test of the first loop of \<open>libt_flush\<close>: the timer is not later than \<open>ref\<close>.\<close>

definition due :: "double \<Rightarrow> timer \<Rightarrow> bool" where
  "due ref t = (\<not> dgt (wakeup t) ref)"

text \<open>
  The wakeup that \<open>libt_add_timeoutx\<close> stores in a timer that exists, by the flags: the
  three branches of the update.
\<close>

definition update_wakeup :: "real \<Rightarrow> double \<Rightarrow> flag set \<Rightarrow> double \<Rightarrow> double" where
  "update_wakeup now wakeuptime flags old =
     (if LIBT_REPEAT \<in> flags then
        (if dlt (dadd old wakeuptime) (Fin now) then dadd (Fin now) wakeuptime
         else dadd old wakeuptime)
      else if LIBT_RELATIVE \<in> flags then dadd wakeuptime (Fin now)
      else wakeuptime)"

text \<open>The call does not schedule the identity (f, d).\<close>

definition other_id :: "nat \<Rightarrow> nat \<Rightarrow> real \<Rightarrow> double \<Rightarrow> nat \<Rightarrow> nat \<Rightarrow> flag set \<Rightarrow> bool" where
  "other_id f d now w f' d' flags = (f' \<noteq> f \<or> d' \<noteq> d)"

text \<open>
  The record \<open>t\<close> is followed through a run: it is on one of the lists or has been freed,
  and no other record has its identity.
\<close>

definition tracked :: "timer \<Rightarrow> libt \<Rightarrow> bool" where
  "tracked t s =
     (heap_ok s \<and> unique_ids s \<and> (t \<in> set (live s) \<or> addr t \<in> set (freed s))
      \<and> (\<forall>u \<in> set (live s). same_id (fn t) (dat t) u \<longrightarrow> u = t))"

text \<open>
  The timers at the front of the pending list that are not later than \<open>ref\<close>: the timers
  the first loop of \<open>libt_flush\<close> takes when no callback changes the list.
\<close>

definition due_front :: "double \<Rightarrow> libt \<Rightarrow> timer list" where
  "due_front ref s = takeWhile (due ref) (timers s)"

text \<open>
  The callbacks of the timers of \<open>D\<close> leave the due front of the pending list as it is:
  invoked in a state where its timer \<open>t\<close> has just been moved to \<open>tmptimers\<close> and the timers
  of \<open>D\<close> behind \<open>t\<close> are the due front, the callback of \<open>t\<close> returns in a state with the
  same due front.
\<close>

definition keeps_front :: "callbacks \<Rightarrow> double \<Rightarrow> timer list \<Rightarrow> bool" where
  "keeps_front cb ref D =
     (\<forall>pre t post st. D = pre @ t # post \<longrightarrow> heap_ok st \<longrightarrow> unique_ids st \<longrightarrow>
        (\<exists>rest. tmptimers st = t # rest) \<longrightarrow> due_front ref st = post \<longrightarrow>
        due_front ref (invoke cb t st) = post)"

text \<open>The call schedules or cancels the identity (f, d).\<close>

fun touches :: "nat \<Rightarrow> nat \<Rightarrow> call \<Rightarrow> bool" where
  "touches f d (Add now w f' d' flags) = (f' = f \<and> d' = d)"
| "touches f d (Remove f' d') = (f' = f \<and> d' = d)"

section \<open>Properties of the model\<close>

subsection \<open>Rounding\<close>

text \<open>The rounding with the bound \<open>2 ^ 1024\<close> written out, for evaluation.\<close>

lemma fl_code [code]:
  "fl x = (if x = 0 then Fin 0 else
     let e = max (ilog2 \<bar>x\<bar> - 52) (- 1074);
         y = of_int (rne (x / 2 powi e)) * 2 powi e
     in if 179769313486231590772930519078902473361797697894230657273430081157732675805500963132708477322407536021120113879871393357658789768814416622492847430639474124377767893424865485276302219601246094119453082952085005768838150682342462881473913110540827237163350510684586298239947245938479716304835356329624224137216 \<le> \<bar>y\<bar>
        then (if 0 < x then PInf else NInf) else Fin y)"
  by (simp add: fl_def)

lemma fl_zero [simp]: "fl 0 = Fin 0"
  by (simp add: fl_def)

lemma isnan_fl [simp]: "\<not> isnan (fl x)"
  by (simp add: fl_def Let_def)

lemma fl_neq_NaN [simp]: "fl x \<noteq> NaN"
  by (simp add: fl_def Let_def)

lemma rne_nonneg: "0 \<le> y \<Longrightarrow> 0 \<le> rne y"
  by (simp add: rne_def Let_def)

lemma fl_nonneg: "0 \<le> x \<Longrightarrow> fl x = PInf \<or> (\<exists>y. 0 \<le> y \<and> fl x = Fin y)"
  by (auto simp add: fl_def Let_def intro!: mult_nonneg_nonneg rne_nonneg divide_nonneg_nonneg)

lemma isnan_dadd_Fin [simp]: "isnan (dadd a (Fin x)) = isnan a"
  by (cases a) simp_all

lemma isnan_dadd_Fin2 [simp]: "isnan (dadd (Fin x) a) = isnan a"
  by (cases a) simp_all

text \<open>
  The exponent function and the rounding are what their definitions are meant to be: the
  exponent is that of the binade, the integer rounding is within one half, and the
  rounding to binary64 returns a multiple of the unit in the last place within half a
  unit, keeps the numbers that have a significand of 53 bits, and is idempotent.
\<close>

lemma ilog2_bounds:
  assumes "0 < x"
  shows "2 powi ilog2 x \<le> x" and "x < 2 powi (ilog2 x + 1)"
proof -
  have "2 powi ilog2 x \<le> x \<and> x < 2 powi (ilog2 x + 1)"
  proof (cases "1 \<le> x")
    case True
    define n where "n = \<lfloor>x\<rfloor>"
    have n: "1 \<le> n" "of_int n \<le> x" "x < of_int n + 1"
      using True by (simp_all add: n_def le_floor_iff)
    then have "0 < n" by simp
    from bitlen_bounds [OF this] have b: "2 ^ nat (bitlen n - 1) \<le> n" "n < 2 ^ nat (bitlen n)"
      by simp_all
    have b1: "1 \<le> bitlen n" using \<open>0 < n\<close> by (simp add: bitlen_alt_def)
    have il: "ilog2 x = bitlen n - 1" using True by (simp add: ilog2_def n_def)
    have "(2 :: real) powi (bitlen n - 1) = 2 ^ nat (bitlen n - 1)"
      using b1 by (simp add: power_int_def)
    also have "\<dots> = of_int (2 ^ nat (bitlen n - 1))" by simp
    also have "\<dots> \<le> of_int n" using b(1) by (simp only: of_int_le_iff)
    finally have lo: "2 powi ilog2 x \<le> x" using n(2) il by simp
    have "n + 1 \<le> 2 ^ nat (bitlen n)" using b(2) by simp
    then have "real_of_int (n + 1) \<le> of_int (2 ^ nat (bitlen n))" by (simp only: of_int_le_iff)
    then have "of_int n + 1 \<le> (2 :: real) ^ nat (bitlen n)" by simp
    also have "\<dots> = 2 powi bitlen n" using b1 by (simp add: power_int_def)
    finally have "x < 2 powi (ilog2 x + 1)" using n(3) il by simp
    with lo show ?thesis ..
  next
    case False
    define y where "y = 1 / x"
    define m where "m = \<lceil>y\<rceil> - 1"
    from False assms have y1: "1 < y" by (simp add: y_def)
    have m: "of_int m < y" "y \<le> of_int m + 1" "1 \<le> m"
      using y1 by (simp_all add: m_def less_ceiling_iff) linarith+
    then have "0 < m" by simp
    from bitlen_bounds [OF this] have b: "2 ^ nat (bitlen m - 1) \<le> m" "m < 2 ^ nat (bitlen m)"
      by simp_all
    have b1: "1 \<le> bitlen m" using \<open>0 < m\<close> by (simp add: bitlen_alt_def)
    have il: "ilog2 x = - bitlen m" using False by (simp add: ilog2_def m_def y_def)
    have "m + 1 \<le> 2 ^ nat (bitlen m)" using b(2) by simp
    then have "real_of_int (m + 1) \<le> of_int (2 ^ nat (bitlen m))" by (simp only: of_int_le_iff)
    then have "y \<le> 2 ^ nat (bitlen m)" using m(2) by simp
    then have "1 / 2 ^ nat (bitlen m) \<le> x" using assms by (simp add: y_def field_simps)
    moreover have "(2 :: real) powi (- bitlen m) = 1 / 2 ^ nat (bitlen m)"
      using b1 by (simp add: power_int_def power_divide)
    ultimately have lo: "2 powi ilog2 x \<le> x" using il by simp
    have "real_of_int (2 ^ nat (bitlen m - 1)) \<le> of_int m" using b(1) by (simp only: of_int_le_iff)
    then have "(2 :: real) ^ nat (bitlen m - 1) \<le> of_int m" by simp
    then have "2 ^ nat (bitlen m - 1) < y" using m(1) by linarith
    then have "x < 1 / 2 ^ nat (bitlen m - 1)" using assms by (simp add: y_def field_simps)
    moreover have "(2 :: real) powi (- bitlen m + 1) = 1 / 2 ^ nat (bitlen m - 1)"
    proof (cases "bitlen m = 1")
      case True
      then show ?thesis by simp
    next
      case False
      with b1 have "- bitlen m + 1 < 0" "nat (- (- bitlen m + 1)) = nat (bitlen m - 1)" by simp_all
      then show ?thesis by (simp add: power_int_def power_divide)
    qed
    ultimately have "x < 2 powi (ilog2 x + 1)" using il by simp
    with lo show ?thesis ..
  qed
  then show "2 powi ilog2 x \<le> x" and "x < 2 powi (ilog2 x + 1)" by simp_all
qed

lemma rne_of_int [simp]: "rne (of_int n) = n"
  by (simp add: rne_def)

lemma rne_close: "\<bar>of_int (rne y) - y\<bar> \<le> 1 / 2"
  unfolding rne_def Let_def by (auto simp: abs_le_iff)

lemma rne_le_int: "y \<le> of_int n \<Longrightarrow> rne y \<le> n"
  using rne_close [of y] by linarith

lemma rne_ge_int: "of_int n \<le> y \<Longrightarrow> n \<le> rne y"
  using rne_close [of y] by linarith

lemma powi_less_exp: "(2 :: real) powi a < 2 powi b \<Longrightarrow> a < b"
  using power_int_increasing [of b a "2 :: real"] by (cases "a < b") auto

lemma ulp_exponent:
  assumes "x \<noteq> 0"
  defines "e \<equiv> max (ilog2 \<bar>x\<bar> - 52) (- 1074)"
  shows "- 1074 \<le> e" and "\<bar>x\<bar> / 2 powi e < 2 ^ 53"
proof -
  show "- 1074 \<le> e" by (simp add: e_def)
  have pos: "0 < \<bar>x\<bar>" using assms by simp
  have "ilog2 \<bar>x\<bar> + 1 \<le> e + 53" by (simp add: e_def)
  then have "(2 :: real) powi (ilog2 \<bar>x\<bar> + 1) \<le> 2 powi (e + 53)"
    by (intro power_int_increasing) simp_all
  with ilog2_bounds(2) [OF pos] have "\<bar>x\<bar> < 2 powi (e + 53)" by simp
  also have "\<dots> = 2 powi e * 2 ^ 53" by (simp add: power_int_add)
  finally show "\<bar>x\<bar> / 2 powi e < 2 ^ 53" by (simp add: field_simps)
qed

text \<open>A number with a significand of 53 bits in the range of binary64 is not changed.\<close>

lemma fl_exact:
  assumes x: "x = of_int m * 2 powi k" and m: "\<bar>m\<bar> < 2 ^ 53" and k: "- 1074 \<le> k"
    and r: "\<bar>x\<bar> < 2 ^ 1024"
  shows "fl x = Fin x"
proof (cases "x = 0")
  case True
  then show ?thesis by simp
next
  case False
  define e where "e = max (ilog2 \<bar>x\<bar> - 52) (- 1074)"
  have pos: "0 < \<bar>x\<bar>" using False by simp
  have "\<bar>x\<bar> = of_int \<bar>m\<bar> * 2 powi k" by (simp add: x abs_mult)
  also have "\<dots> < 2 ^ 53 * 2 powi k"
    using m by (intro mult_strict_right_mono) (simp_all add: of_int_less_numeral_power_cancel_iff)
  also have "\<dots> = 2 powi (k + 53)" by (simp add: power_int_add)
  finally have "2 powi ilog2 \<bar>x\<bar> < (2 :: real) powi (k + 53)"
    using ilog2_bounds(1) [OF pos] by simp
  then have "ilog2 \<bar>x\<bar> < k + 53" by (rule powi_less_exp)
  with k have ek: "e \<le> k" by (simp add: e_def)
  have "x / 2 powi e = of_int m * 2 powi (k - e)"
    by (simp add: x power_int_diff)
  also have "\<dots> = of_int (m * 2 ^ nat (k - e))"
    using ek by (simp add: power_int_nonneg_exp)
  finally have q: "x / 2 powi e = of_int (m * 2 ^ nat (k - e))" .
  have "of_int (rne (x / 2 powi e)) = x / 2 powi e"
    unfolding q by (simp only: rne_of_int)
  then have "of_int (rne (x / 2 powi e)) * 2 powi e = x" by simp
  with False r show ?thesis by (simp add: fl_def Let_def e_def)
qed


text \<open>The rounded value: a multiple of the unit in the last place, at most half a unit away.\<close>

lemma fl_form:
  assumes "x \<noteq> 0" "fl x = Fin y"
  defines "e \<equiv> max (ilog2 \<bar>x\<bar> - 52) (- 1074)"
  shows "\<exists>n. y = of_int n * 2 powi e \<and> \<bar>n\<bar> \<le> 2 ^ 53 \<and> n = rne (x / 2 powi e)"
    and "\<bar>y - x\<bar> \<le> 2 powi e / 2" and "\<bar>y\<bar> < 2 ^ 1024"
proof -
  define n where "n = rne (x / 2 powi e)"
  from assms(1,2) have y: "y = of_int n * 2 powi e" and r: "\<bar>y\<bar> < 2 ^ 1024"
    by (auto simp: fl_def Let_def e_def n_def split: if_splits)
  define z where "z = x / 2 powi e"
  from ulp_exponent(2) [OF assms(1)] have "\<bar>z\<bar> < 2 ^ 53"
    by (simp add: e_def z_def)
  then have "z \<le> of_int (2 ^ 53)" "of_int (- (2 ^ 53)) \<le> z"
    by (simp_all add: abs_less_iff)
  then have "rne z \<le> 2 ^ 53" "- (2 ^ 53) \<le> rne z"
    by (simp_all only: rne_le_int rne_ge_int)
  then have "n \<le> 2 ^ 53" "- (2 ^ 53) \<le> n"
    by (simp_all add: n_def z_def)
  then have "\<bar>n\<bar> \<le> 2 ^ 53" by simp
  with y show "\<exists>n. y = of_int n * 2 powi e \<and> \<bar>n\<bar> \<le> 2 ^ 53 \<and> n = rne (x / 2 powi e)"
    using n_def by blast
  have "y - x = (of_int n - x / 2 powi e) * 2 powi e" by (simp add: y field_simps)
  then have "\<bar>y - x\<bar> = \<bar>of_int n - x / 2 powi e\<bar> * 2 powi e" by (simp add: abs_mult)
  also have "\<dots> \<le> 1 / 2 * 2 powi e"
    using rne_close [of "x / 2 powi e"] unfolding n_def by (intro mult_right_mono) simp_all
  finally show "\<bar>y - x\<bar> \<le> 2 powi e / 2" by simp
  show "\<bar>y\<bar> < 2 ^ 1024" by (rule r)
qed

lemma fl_idem:
  assumes "fl x = Fin y"
  shows "fl y = Fin y"
proof (cases "x = 0")
  case True
  with assms show ?thesis by simp
next
  case False
  define e where "e = max (ilog2 \<bar>x\<bar> - 52) (- 1074)"
  from fl_form [OF False assms] obtain n where
    n: "y = of_int n * 2 powi e" "\<bar>n\<bar> \<le> 2 ^ 53" and r: "\<bar>y\<bar> < 2 ^ 1024"
    unfolding e_def by blast
  have e: "- 1074 \<le> e" by (simp add: e_def)
  show ?thesis
  proof (cases "\<bar>n\<bar> < 2 ^ 53")
    case True
    from n(1) True e r show ?thesis by (rule fl_exact)
  next
    case False
    with n(2) have "\<bar>n\<bar> = 2 ^ 53" by simp
    then consider "n = 2 ^ 53" | "n = - (2 ^ 53)" by (auto simp: abs_if split: if_splits)
    then obtain s :: int where s: "\<bar>s\<bar> = 1" "n = s * 2 ^ 53"
    proof cases
      case 1
      then have "\<bar>1 :: int\<bar> = 1" "n = 1 * 2 ^ 53" by simp_all
      then show ?thesis by (rule that)
    next
      case 2
      then have "\<bar>- 1 :: int\<bar> = 1" "n = - 1 * 2 ^ 53" by simp_all
      then show ?thesis by (rule that)
    qed
    have "y = of_int s * 2 powi (e + 53)" by (simp add: n(1) s(2) power_int_add)
    moreover have "\<bar>s\<bar> < 2 ^ 53" using s(1) by simp
    moreover have "- 1074 \<le> e + 53" using e by simp
    ultimately show ?thesis using r by (rule fl_exact)
  qed
qed


lemma powi_le_exp: "(2 :: real) powi a \<le> 2 powi b \<Longrightarrow> a \<le> b"
  using power_int_strict_increasing [of b a "2 :: real"] by (cases "a \<le> b") auto

text \<open>Rounding keeps the multiples of a quarter, and the interval from 0 to \<open>2 ^ 54\<close>.\<close>

lemma fl_quarter:
  assumes t: "t = of_int j / 4" and z: "fl t = Fin z"
  shows "\<exists>i :: int. z = of_int i / 4"
proof (cases "t = 0")
  case True
  with z have "z = of_int 0 / 4" by simp
  then show ?thesis by blast
next
  case False
  define e where "e = max (ilog2 \<bar>t\<bar> - 52) (- 1074)"
  from fl_form(1) [OF False z] obtain n where
    n: "z = of_int n * 2 powi e" "n = rne (t / 2 powi e)"
    unfolding e_def by blast
  show ?thesis
  proof (cases "- 2 \<le> e")
    case True
    have "z = of_int n * 2 powi (e + 2) / 4" by (simp add: n(1) power_int_add)
    also have "\<dots> = of_int (n * 2 ^ nat (e + 2)) / 4"
      using True by (simp add: power_int_nonneg_exp)
    finally show ?thesis by blast
  next
    case False
    then have neg: "0 \<le> - e - 2" by simp
    have "t / 2 powi e = of_int j * 2 powi (- e - 2)"
      by (simp add: t power_int_diff power_int_minus field_simps)
    also have "\<dots> = of_int (j * 2 ^ nat (- e - 2))"
      using neg by (simp add: power_int_nonneg_exp)
    finally have q: "t / 2 powi e = of_int (j * 2 ^ nat (- e - 2))" .
    have "of_int n = t / 2 powi e" unfolding n(2) q by (simp only: rne_of_int)
    then have "z = t" by (simp add: n(1))
    with t show ?thesis by blast
  qed
qed

lemma fl_bound:
  assumes "0 \<le> t" "t \<le> 2 ^ 54 + 1 / 2"
  shows "\<exists>z. fl t = Fin z \<and> 0 \<le> z \<and> z \<le> 2 ^ 54"
proof (cases "t = 0")
  case True
  then show ?thesis by simp
next
  case False
  with assms(1) have pos: "0 < t" by simp
  define e where "e = max (ilog2 \<bar>t\<bar> - 52) (- 1074)"
  define n where "n = rne (t / 2 powi e)"
  define y :: real where "y = of_int n * 2 powi e"
  have n0: "0 \<le> n" unfolding n_def using assms(1) by (intro rne_nonneg) simp
  then have y0: "0 \<le> y" by (simp add: y_def)
  have "y \<le> 2 ^ 54"
  proof (cases "t \<le> 2 ^ 54")
    case True
    from ilog2_bounds(1) [OF pos] True have "(2 :: real) powi ilog2 t \<le> 2 powi 54" by simp
    then have "ilog2 t \<le> 54" by (rule powi_le_exp)
    with pos have e54: "e \<le> 54" by (simp add: e_def)
    have "t / 2 powi e \<le> 2 ^ 54 / 2 powi e" using True by (simp add: divide_right_mono)
    also have "\<dots> = 2 powi (54 - e)" by (simp add: power_int_diff)
    also have "\<dots> = of_int (2 ^ nat (54 - e))" using e54 by (simp add: power_int_nonneg_exp)
    finally have "n \<le> 2 ^ nat (54 - e)" unfolding n_def by (rule rne_le_int)
    then have "real_of_int n \<le> of_int (2 ^ nat (54 - e))" by (simp only: of_int_le_iff)
    then have "real_of_int n \<le> 2 powi (54 - e)" using e54 by (simp add: power_int_nonneg_exp)
    then have "y \<le> 2 powi (54 - e) * 2 powi e" unfolding y_def by (intro mult_right_mono) simp_all
    also have "\<dots> = 2 ^ 54" by (simp flip: power_int_add)
    finally show ?thesis .
  next
    case False
    then have big: "2 ^ 54 < t" by simp
    from ilog2_bounds [OF pos] big assms(2)
    have "(2 :: real) powi ilog2 t < 2 powi 55" "(2 :: real) powi 54 < 2 powi (ilog2 t + 1)"
      by simp_all
    then have "ilog2 t < 55" "54 < ilog2 t + 1" by (simp_all only: powi_less_exp)
    then have "ilog2 t = 54" by simp
    with pos have e: "e = 2" by (simp add: e_def)
    define q where "q = t / 2 powi e"
    have "q \<le> 2 ^ 52 + 1 / 8" using assms(2) by (simp add: e q_def)
    moreover have "\<bar>real_of_int n - q\<bar> \<le> 1 / 2"
      unfolding n_def q_def by (rule rne_close)
    ultimately have "real_of_int n < 2 ^ 52 + 1" by linarith
    then have "real_of_int n < of_int (2 ^ 52 + 1)" by simp
    then have "n < 2 ^ 52 + 1" by (simp only: of_int_less_iff)
    then have "n \<le> 2 ^ 52" by simp
    then have "real_of_int n \<le> of_int (2 ^ 52)" by (simp only: of_int_le_iff)
    then show ?thesis by (simp add: y_def e)
  qed
  with y0 have "\<bar>y\<bar> < 2 ^ 1024" by simp
  with False have "fl t = Fin y" by (simp add: fl_def Let_def e_def n_def y_def)
  with y0 \<open>y \<le> 2 ^ 54\<close> show ?thesis by blast
qed

text \<open>The reference time of a flush at some values of the clock.\<close>

lemma fl_milli: "fl (1 / 1000) = Fin (1152921504606847 / 1152921504606846976)"
  by code_simp

lemma flush_ref_at_2: "flush_ref 2 = Fin (4505851427184181 / 2251799813685248)"
  by code_simp

lemma flush_ref_at_1: "flush_ref 1 = Fin (2254051613498933 / 2251799813685248)"
  by code_simp

lemma flush_ref_at_0: "flush_ref 0 = Fin (1152921504606847 / 1152921504606846976)"
  by code_simp

lemma flush_ref_at_2_5: "flush_ref (5 / 2) = Fin (5631751334026805 / 2251799813685248)"
  by code_simp

lemma flush_ref_at_6143: "flush_ref (6143 / 1024) = Fin (6755425829334811 / 1125899906842624)"
  by code_simp

text \<open>Some sums that are exact.\<close>

lemma fl_small_values:
  "fl 6 = Fin 6" "fl 7 = Fin 7" "fl 11 = Fin 11" "fl 15 = Fin 15"
  "fl (11263 / 1024) = Fin (11263 / 1024)"
  by code_simp+


section \<open>Results of scheduling\<close>

lemma add_timeoutx_fst:
  "fst (libt_add_timeoutx now w f d flags s) =
     (if isnan w then Inl EINVAL
      else if libt_timeout_exist f d s then (if LIBT_MOD \<in> flags then Inr () else Inl EPERM)
      else (if LIBT_ADD \<in> flags then Inr () else Inl ENOENT))"
  by (simp add: libt_add_timeoutx_def libt_timeout_exist_def Let_def split: option.splits)

text \<open>
  C7, as stated: apart from a NaN time, a request with only CREATE for an existing
  identity and a request with only UPDATE for a missing one, scheduling succeeds. A
  request with neither CREATE nor UPDATE is none of the three, and fails: on the empty
  queue with \<open>ENOENT\<close>.
\<close>

theorem add_timeoutx_no_flags_counterexample:
  "libt_add_timeoutx 0 (Fin 1) 0 0 {} libt_init = (Inl ENOENT, libt_init)"
  by (simp add: libt_add_timeoutx_def t_find_def libt_init_def)

text \<open>
  C7, amended: a NaN time fails with \<open>EINVAL\<close>; otherwise a request without UPDATE for an
  existing identity fails with \<open>EPERM\<close>, a request without CREATE for a missing identity
  fails with \<open>ENOENT\<close>, and every other request succeeds. A failing request leaves the
  state as it was.
\<close>

theorem add_timeoutx_errors:
  "fst (libt_add_timeoutx now w f d flags s) =
     (if isnan w then Inl EINVAL
      else if libt_timeout_exist f d s then (if LIBT_MOD \<in> flags then Inr () else Inl EPERM)
      else (if LIBT_ADD \<in> flags then Inr () else Inl ENOENT))
   \<and> (fst (libt_add_timeoutx now w f d flags s) \<noteq> Inr () \<longrightarrow>
        snd (libt_add_timeoutx now w f d flags s) = s)"
proof
  show "fst (libt_add_timeoutx now w f d flags s) =
     (if isnan w then Inl EINVAL
      else if libt_timeout_exist f d s then (if LIBT_MOD \<in> flags then Inr () else Inl EPERM)
      else (if LIBT_ADD \<in> flags then Inr () else Inl ENOENT))"
    by (rule add_timeoutx_fst)
  show "fst (libt_add_timeoutx now w f d flags s) \<noteq> Inr () \<longrightarrow>
        snd (libt_add_timeoutx now w f d flags s) = s"
    by (simp add: libt_add_timeoutx_def Let_def split: option.splits)
qed

theorem add_timeoutx_errors_witness:
  "fst (libt_add_timeoutx 0 NaN 0 0 {LIBT_ADD} libt_init) = Inl EINVAL
   \<and> fst (libt_add_timeoutx 0 NaN 0 0 {LIBT_ADD} libt_init) \<noteq> Inr ()
   \<and> snd (libt_add_timeoutx 0 NaN 0 0 {LIBT_ADD} libt_init) = libt_init"
  using add_timeoutx_errors [of 0 NaN 0 0 "{LIBT_ADD}" libt_init] by simp

section \<open>Comparison of doubles\<close>

lemma dlt_irrefl: "\<not> dlt a a"
  by (cases a) auto

lemma dlt_asym: "dlt a b \<Longrightarrow> \<not> dlt b a"
  by (cases a; cases b) auto

lemma dlt_trans: "dlt a b \<Longrightarrow> dlt b c \<Longrightarrow> dlt a c"
  by (cases a; cases b; cases c) auto

lemma dle_Fin [simp]: "dle (Fin x) (Fin y) = (x \<le> y)"
  by (auto simp: dle_def)

lemma dgt_Fin [simp]: "dgt (Fin x) (Fin y) = (y < x)"
  by (simp add: dgt_def)

section \<open>Invariants of the queue\<close>

text \<open>
  A property of the state that every elementary step of the code keeps is kept by the
  loops built from them: the calls of a callback, the two loops of \<open>libt_flush\<close>, and a
  sequence of calls of the application.
\<close>

lemma run_calls_invariant:
  assumes add: "\<And>now w f d flags s. I s \<Longrightarrow> A now w f d flags \<Longrightarrow>
                  I (snd (libt_add_timeoutx now w f d flags s))"
    and rem: "\<And>f d s. I s \<Longrightarrow> I (libt_remove_timeout f d s)"
  shows "\<forall>c \<in> set cs. call_ok A c \<Longrightarrow> I s \<Longrightarrow> I (run_calls cs s)"
proof (induction cs arbitrary: s)
  case Nil
  then show ?case by simp
next
  case (Cons c cs)
  have "I (run_call c s)"
    using Cons.prems by (cases c) (simp_all add: add rem)
  then show ?case using Cons.IH Cons.prems(1) by simp
qed

lemma flush_loop_invariant:
  assumes step: "\<And>s t ts. I s \<Longrightarrow> timers s = t # ts \<Longrightarrow> I (invoke cb t (t_add_tmp t s))"
    and run: "flush_loop cb now s cnt = Some r"
    and start: "I s"
  shows "I (snd r)"
proof -
  have "cb = cb \<longrightarrow> I s \<longrightarrow> I (snd r)"
  proof (rule flush_loop.raw_induct
      [where P = "\<lambda>c n st k y. c = cb \<longrightarrow> I st \<longrightarrow> I (snd y)", OF _ run])
    fix loop c n st k y
    assume IH: "\<And>c n st k y. loop c n st k = Some y \<Longrightarrow> c = cb \<longrightarrow> I st \<longrightarrow> I (snd y)"
      and body: "(case timers st of
                    [] \<Rightarrow> Some (k, st)
                  | t # x \<Rightarrow> if dgt (wakeup t) n then Some (k, st)
                             else loop c n (invoke c t (t_add_tmp t st)) (k + 1)) = Some y"
    show "c = cb \<longrightarrow> I st \<longrightarrow> I (snd y)"
    proof (intro impI)
      assume c: "c = cb" and i: "I st"
      show "I (snd y)"
      proof (cases "timers st")
        case Nil
        with body have "y = (k, st)" by simp
        with i show ?thesis by simp
      next
        case (Cons t ts)
        show ?thesis
        proof (cases "dgt (wakeup t) n")
          case True
          with body Cons have "y = (k, st)" by simp
          with i show ?thesis by simp
        next
          case False
          with body Cons
          have next_run: "loop c n (invoke c t (t_add_tmp t st)) (k + 1) = Some y" by simp
          have "I (invoke c t (t_add_tmp t st))" using step [OF i Cons] c by simp
          with IH [OF next_run] c show ?thesis by simp
        qed
      qed
    qed
  qed
  with start show ?thesis by simp
qed

lemma flush_cleanup_invariant:
  assumes fr: "\<And>s t ts. I s \<Longrightarrow> tmptimers s = t # ts \<Longrightarrow> I (free t (t_del t s))"
  shows "I s \<Longrightarrow> I (flush_cleanup s)"
proof (induction s rule: flush_cleanup.induct)
  case (1 s)
  show ?case
  proof (cases "tmptimers s")
    case Nil
    with 1(2) show ?thesis by (subst flush_cleanup.simps) simp
  next
    case (Cons t ts)
    have "I (flush_cleanup (free t (t_del t s)))"
      using 1(1) [OF Cons] fr [OF 1(2) Cons] by simp
    with Cons show ?thesis by (subst flush_cleanup.simps) simp
  qed
qed

lemma libt_flush_invariant:
  assumes add: "\<And>now w f d flags s. I s \<Longrightarrow> A now w f d flags \<Longrightarrow>
                  I (snd (libt_add_timeoutx now w f d flags s))"
    and rem: "\<And>f d s. I s \<Longrightarrow> I (libt_remove_timeout f d s)"
    and mv: "\<And>s t ts. I s \<Longrightarrow> timers s = t # ts \<Longrightarrow>
               I ((t_add_tmp t s)\<lparr>called := called (t_add_tmp t s) @ [(fn t, dat t)]\<rparr>)"
    and fr: "\<And>s t ts. I s \<Longrightarrow> tmptimers s = t # ts \<Longrightarrow> I (free t (t_del t s))"
    and cb: "\<And>f d s. \<forall>c \<in> set (cb f d s). call_ok A c"
    and run: "libt_flush cb now s = Some r"
    and start: "I s"
  shows "I (snd r)"
proof -
  from run obtain cnt s1 where
    loop: "flush_loop cb (flush_ref now) s 0 = Some (cnt, s1)"
    and r: "r = (cnt, flush_cleanup s1)"
    by (auto simp: libt_flush_def split: option.splits)
  have "I (snd (cnt, s1))"
  proof (rule flush_loop_invariant [where I = I, OF _ loop start])
    fix s t ts
    assume "I s" "timers s = t # ts"
    then have moved: "I ((t_add_tmp t s)\<lparr>called := called (t_add_tmp t s) @ [(fn t, dat t)]\<rparr>)"
      by (rule mv)
    show "I (invoke cb t (t_add_tmp t s))"
      unfolding invoke_def
    proof (rule run_calls_invariant [where I = I and A = A])
      show "I ((t_add_tmp t s)\<lparr>called := called (t_add_tmp t s) @ [(fn t, dat t)]\<rparr>)"
        by (rule moved)
      show "\<forall>c \<in> set (cb (fn t) (dat t) (t_add_tmp t s)). call_ok A c"
        by (rule cb)
    qed (rule add, assumption, assumption, rule rem, assumption)
  qed
  then have s1: "I s1" by simp
  have "I (flush_cleanup s1)"
  proof (rule flush_cleanup_invariant [where I = I])
    show "I s1" by (rule s1)
  qed (rule fr, assumption+)
  with r show ?thesis by simp
qed

lemma api_run_invariant_ok:
  assumes add: "\<And>now w f d flags s. I s \<Longrightarrow> A now w f d flags \<Longrightarrow>
                  I (snd (libt_add_timeoutx now w f d flags s))"
    and rem: "\<And>f d s. I s \<Longrightarrow> I (libt_remove_timeout f d s)"
    and mv: "\<And>s t ts. I s \<Longrightarrow> timers s = t # ts \<Longrightarrow>
               I ((t_add_tmp t s)\<lparr>called := called (t_add_tmp t s) @ [(fn t, dat t)]\<rparr>)"
    and fr: "\<And>s t ts. I s \<Longrightarrow> tmptimers s = t # ts \<Longrightarrow> I (free t (t_del t s))"
    and cb: "\<And>f d s. \<forall>c \<in> set (cb f d s). call_ok A c"
  shows "api_run cb cs s = Some s' \<Longrightarrow> \<forall>c \<in> set cs. api_ok A c \<Longrightarrow> I s \<Longrightarrow> I s'"
proof (induction cs arbitrary: s)
  case Nil
  then show ?case by simp
next
  case (Cons c cs)
  from Cons.prems(1) obtain s1 where
    s1: "api_step cb c s = Some s1" and rest: "api_run cb cs s1 = Some s'"
    by (auto split: option.splits)
  have "I s1"
  proof (cases c)
    case (Schedule now w f d flags)
    with Cons.prems(2) have "A now w f d flags" by simp
    with s1 Schedule Cons.prems(3) show ?thesis by (auto simp: add)
  next
    case (Cancel f d)
    with s1 Cons.prems(3) show ?thesis by (auto simp: rem)
  next
    case (Flush now)
    with s1 obtain r where "libt_flush cb now s = Some r" "s1 = snd r" by auto
    then show ?thesis
      using libt_flush_invariant [where I = I and A = A, OF add rem mv fr cb _ Cons.prems(3)]
      by simp
  qed
  then show ?case using Cons.IH [OF rest] Cons.prems(2) by simp
qed

lemma call_ok_True: "call_ok (\<lambda>_ _ _ _ _. True) c"
  by (cases c) simp_all

lemma api_ok_True: "api_ok (\<lambda>_ _ _ _ _. True) c"
  by (cases c) simp_all

lemma api_run_invariant:
  assumes add: "\<And>now w f d flags s. I s \<Longrightarrow> I (snd (libt_add_timeoutx now w f d flags s))"
    and rem: "\<And>f d s. I s \<Longrightarrow> I (libt_remove_timeout f d s)"
    and mv: "\<And>s t ts. I s \<Longrightarrow> timers s = t # ts \<Longrightarrow>
               I ((t_add_tmp t s)\<lparr>called := called (t_add_tmp t s) @ [(fn t, dat t)]\<rparr>)"
    and fr: "\<And>s t ts. I s \<Longrightarrow> tmptimers s = t # ts \<Longrightarrow> I (free t (t_del t s))"
    and run: "api_run cb cs s = Some s'"
    and start: "I s"
  shows "I s'"
proof (rule api_run_invariant_ok [where I = I and A = "\<lambda>_ _ _ _ _. True", OF _ _ _ _ _ run _ start])
  show "\<forall>c \<in> set cs. api_ok (\<lambda>_ _ _ _ _. True) c" by (simp add: api_ok_True)
  show "\<forall>c \<in> set (cb f d s). call_ok (\<lambda>_ _ _ _ _. True) c" for f d s
    by (simp add: call_ok_True)
qed (rule add, assumption, rule rem, assumption, rule mv, assumption+, rule fr, assumption+)

section \<open>The pending list stays sorted\<close>

lemma nondecreasing_unlink: "nondecreasing xs \<Longrightarrow> nondecreasing (unlink a xs)"
  by (simp add: nondecreasing_def unlink_def sorted_wrt_filter)

lemma set_t_scan [simp]: "set (t_scan t xs) = insert t (set xs)"
  by (induction xs) (auto simp: t_add_def)

lemma nondecreasing_t_scan: "nondecreasing xs \<Longrightarrow> nondecreasing (t_scan t xs)"
proof (induction xs)
  case Nil
  then show ?case by (simp add: nondecreasing_def t_add_def)
next
  case (Cons r rs)
  show ?case
  proof (cases "dlt (wakeup t) (wakeup r)")
    case True
    have "\<not> dlt (wakeup u) (wakeup t)" if "u \<in> set (r # rs)" for u
    proof
      assume "dlt (wakeup u) (wakeup t)"
      then have "dlt (wakeup u) (wakeup r)" using True by (rule dlt_trans)
      with that Cons.prems show False
        by (auto simp: nondecreasing_def dlt_irrefl)
    qed
    with Cons.prems True show ?thesis
      by (simp add: nondecreasing_def t_add_def)
  next
    case False
    with Cons show ?thesis by (auto simp: nondecreasing_def)
  qed
qed

lemma timers_t_add_sorted: "timers (t_add_sorted t s) = t_scan t (unlink (addr t) (timers s))"
  by (simp add: t_add_sorted_def t_del_def Let_def)

lemma nondecreasing_add_timeoutx:
  "nondecreasing (timers s) \<Longrightarrow> nondecreasing (timers (snd (libt_add_timeoutx now w f d flags s)))"
  by (simp add: libt_add_timeoutx_def timers_t_add_sorted nondecreasing_t_scan nondecreasing_unlink
        Let_def split: option.splits)

lemma nondecreasing_remove_timeout:
  "nondecreasing (timers s) \<Longrightarrow> nondecreasing (timers (libt_remove_timeout f d s))"
  by (simp add: libt_remove_timeout_def free_def t_del_def nondecreasing_unlink split: option.splits)

lemma nondecreasing_move:
  "nondecreasing (timers s) \<Longrightarrow>
   nondecreasing (timers ((t_add_tmp t s)\<lparr>called := called (t_add_tmp t s) @ [x]\<rparr>))"
  by (simp add: t_add_tmp_def t_del_def Let_def nondecreasing_unlink)

lemma nondecreasing_free:
  "nondecreasing (timers s) \<Longrightarrow> nondecreasing (timers (free t (t_del t s)))"
  by (simp add: free_def t_del_def nondecreasing_unlink)

lemma nondecreasing_api_run:
  assumes "api_run cb cs s = Some s'" "nondecreasing (timers s)"
  shows "nondecreasing (timers s')"
  by (rule api_run_invariant [where I = "\<lambda>s. nondecreasing (timers s)", OF _ _ _ _ assms])
    (erule nondecreasing_add_timeoutx nondecreasing_remove_timeout
       nondecreasing_move nondecreasing_free)+

lemma t_scan_split:
  "t_scan t xs = takeWhile (\<lambda>u. \<not> dlt (wakeup t) (wakeup u)) xs @ t #
                 dropWhile (\<lambda>u. \<not> dlt (wakeup t) (wakeup u)) xs"
  by (induction xs) (simp_all add: t_add_def)

lemma equal_wakeup_before:
  assumes "nondecreasing xs" "u \<in> set xs" "wakeup u = wakeup t"
  shows "u \<in> set (takeWhile (\<lambda>u. \<not> dlt (wakeup t) (wakeup u)) xs)"
  using assms
proof (induction xs)
  case Nil
  then show ?case by simp
next
  case (Cons r rs)
  show ?case
  proof (cases "dlt (wakeup t) (wakeup r)")
    case True
    with Cons.prems have False
      by (auto simp: nondecreasing_def dlt_irrefl)
    then show ?thesis ..
  next
    case False
    with Cons show ?thesis by (auto simp: nondecreasing_def)
  qed
qed

lemma nondecreasing_no_nan:
  "\<forall>u \<in> set xs. \<not> isnan (wakeup u) \<Longrightarrow>
   nondecreasing xs = sorted_wrt (\<lambda>a b. dle (wakeup a) (wakeup b)) xs"
  by (induction xs) (auto simp: nondecreasing_def dle_def)

lemmas run_defs = libt_add_timeoutx_def t_find_def t_add_sorted_def t_del_def unlink_def
  t_add_def libt_flush_def flush_loop.simps invoke_def t_add_tmp_def flush_cleanup.simps
  free_def dgt_def same_id_def libt_init_def libt_remove_timeout_def Let_def


section \<open>One timer for an identity\<close>

lemma find_None_iff2: "(find P xs = None) = (\<forall>x \<in> set xs. \<not> P x)"
  by (induction xs) auto

lemma find_Some_mem: "find P xs = Some x \<Longrightarrow> x \<in> set xs \<and> P x"
  by (induction xs) (auto split: if_splits)

lemma t_find_None: "(t_find f d s = None) = (\<forall>u \<in> set (live s). \<not> same_id f d u)"
proof (cases "find (same_id f d) (timers s)")
  case None
  then have "t_find f d s = find (same_id f d) (tmptimers s)" by (simp add: t_find_def)
  moreover from None have "\<forall>u \<in> set (timers s). \<not> same_id f d u" by (simp add: find_None_iff2)
  ultimately show ?thesis by (simp add: live_def find_None_iff2 ball_Un)
next
  case (Some t)
  with find_Some_mem [OF Some] show ?thesis by (auto simp: t_find_def live_def)
qed

lemma t_find_Some: "t_find f d s = Some t \<Longrightarrow> t \<in> set (live s) \<and> same_id f d t"
  by (auto simp: t_find_def live_def split: option.splits dest: find_Some_mem)

lemma unlink_append: "unlink a xs @ unlink a ys = unlink a (xs @ ys)"
  by (simp add: unlink_def)

lemma set_unlink [simp]: "set (unlink a xs) = {u \<in> set xs. addr u \<noteq> a}"
  by (simp add: unlink_def)

lemma distinct_ident_unlink: "distinct (map ident xs) \<Longrightarrow> distinct (map ident (unlink a xs))"
  by (simp add: unlink_def distinct_map_filter)

lemma distinct_ident_t_scan:
  "distinct (map ident (t_scan t xs @ ys)) =
     (ident t \<notin> ident ` (set xs \<union> set ys) \<and> distinct (map ident (xs @ ys)))"
  by (induction xs) (auto simp: t_add_def)

lemma distinct_ident_relink:
  assumes "distinct (map ident (xs @ ys))"
    and "\<And>u. u \<in> set (xs @ ys) \<Longrightarrow> addr u \<noteq> a \<Longrightarrow> ident u \<noteq> ident t"
  shows "distinct (map ident (t_scan t (unlink a xs) @ unlink a ys))"
proof -
  have "distinct (map ident (unlink a xs @ unlink a ys))"
    unfolding unlink_append using assms(1) by (rule distinct_ident_unlink)
  moreover have "ident t \<notin> ident ` (set (unlink a xs) \<union> set (unlink a ys))"
    using assms(2) by fastforce
  ultimately show ?thesis by (simp only: distinct_ident_t_scan simp_thms)
qed

lemma live_t_add_sorted:
  "live (t_add_sorted t s) = t_scan t (unlink (addr t) (timers s)) @ unlink (addr t) (tmptimers s)"
  by (simp add: live_def t_add_sorted_def t_del_def Let_def)

lemma unique_ids_same:
  "unique_ids s \<Longrightarrow> t \<in> set (live s) \<Longrightarrow> u \<in> set (live s) \<Longrightarrow> ident u = ident t \<Longrightarrow> u = t"
  unfolding unique_ids_def by (meson distinct_map inj_on_eq_iff)

lemma unique_ids_t_add_sorted_new:
  assumes "unique_ids s" "\<forall>u \<in> set (live s). ident u \<noteq> ident t"
  shows "unique_ids (t_add_sorted t s)"
  unfolding unique_ids_def live_t_add_sorted
proof (rule distinct_ident_relink)
  show "distinct (map ident (timers s @ tmptimers s))"
    using assms(1) by (simp add: unique_ids_def live_def)
  show "ident u \<noteq> ident t" if "u \<in> set (timers s @ tmptimers s)" for u
    using assms(2) that by (simp add: live_def)
qed

lemma unique_ids_t_add_sorted_old:
  assumes "unique_ids s" "t \<in> set (live s)" "ident t' = ident t" "addr t' = addr t"
  shows "unique_ids (t_add_sorted t' s)"
  unfolding unique_ids_def live_t_add_sorted
proof (rule distinct_ident_relink)
  show "distinct (map ident (timers s @ tmptimers s))"
    using assms(1) by (simp add: unique_ids_def live_def)
  show "ident u \<noteq> ident t'" if "u \<in> set (timers s @ tmptimers s)" "addr u \<noteq> addr t'" for u
  proof
    assume "ident u = ident t'"
    then have "ident u = ident t" using assms(3) by simp
    moreover have "u \<in> set (live s)" using that(1) by (simp add: live_def)
    ultimately have "u = t" using unique_ids_same [OF assms(1,2)] by blast
    with that(2) assms(4) show False by simp
  qed
qed

lemma unique_ids_brk [simp]: "unique_ids (s\<lparr>brk := b\<rparr>) = unique_ids s"
  by (simp add: unique_ids_def live_def)

lemma live_brk [simp]: "live (s\<lparr>brk := b\<rparr>) = live s"
  by (simp add: live_def)

lemma unique_ids_add_timeoutx:
  assumes "unique_ids s"
  shows "unique_ids (snd (libt_add_timeoutx now w f d flags s))"
proof (cases "t_find f d s")
  case None
  then have "\<forall>u \<in> set (live s). ident u \<noteq> (f, d)"
    by (auto simp: t_find_None same_id_def ident_def)
  then show ?thesis
    using assms None
    by (simp add: libt_add_timeoutx_def Let_def unique_ids_t_add_sorted_new ident_def)
next
  case (Some t)
  then have "t \<in> set (live s)" by (simp add: t_find_Some)
  then show ?thesis
    using assms Some
    by (simp add: libt_add_timeoutx_def Let_def unique_ids_t_add_sorted_old ident_def)
qed

lemma unique_ids_unlink:
  "unique_ids s \<Longrightarrow>
   distinct (map ident (unlink a (timers s) @ unlink a (tmptimers s)))"
  unfolding unlink_append unique_ids_def live_def by (rule distinct_ident_unlink)

lemma unique_ids_free: "unique_ids s \<Longrightarrow> unique_ids (free t (t_del t s))"
  using unique_ids_unlink [of s "addr t"]
  by (simp add: free_def t_del_def unique_ids_def live_def)

lemma unique_ids_remove_timeout:
  "unique_ids s \<Longrightarrow> unique_ids (libt_remove_timeout f d s)"
  by (simp add: libt_remove_timeout_def unique_ids_free split: option.splits)

lemma unique_ids_move:
  assumes "unique_ids s" "timers s = t # ts"
  shows "unique_ids ((t_add_tmp t s)\<lparr>called := called (t_add_tmp t s) @ [x]\<rparr>)"
proof -
  have t: "t \<in> set (live s)" using assms(2) by (simp add: live_def)
  have other: "ident u \<noteq> ident t" if "u \<in> set (live s)" "addr u \<noteq> addr t" for u
    using unique_ids_same [OF assms(1) t that(1)] that(2) by auto
  have "ident t \<notin> ident ` (set (unlink (addr t) (timers s)) \<union> set (unlink (addr t) (tmptimers s)))"
    using other by (fastforce simp: live_def)
  with unique_ids_unlink [OF assms(1), of "addr t"]
  show ?thesis
    by (simp add: unique_ids_def live_def t_add_tmp_def t_del_def Let_def t_add_def image_Un)
qed

lemma unique_ids_api_run:
  assumes "api_run cb cs s = Some s'" "unique_ids s"
  shows "unique_ids s'"
  by (rule api_run_invariant [where I = unique_ids, OF _ _ _ _ assms])
    (erule unique_ids_add_timeoutx unique_ids_remove_timeout unique_ids_free
       unique_ids_move, (assumption)?)+


lemma filter_same_id_unique:
  "distinct (map ident xs) \<Longrightarrow> t \<in> set xs \<Longrightarrow> same_id f d t \<Longrightarrow> filter (same_id f d) xs = [t]"
proof (induction xs)
  case Nil
  then show ?case by simp
next
  case (Cons x xs)
  show ?case
  proof (cases "x = t")
    case True
    have "\<not> same_id f d u" if "u \<in> set xs" for u
    proof
      assume "same_id f d u"
      with Cons.prems(3) have "ident u = ident x" using True by (simp add: same_id_def ident_def)
      moreover from Cons.prems(1) have "ident x \<notin> ident ` set xs" by simp
      ultimately show False using that by (metis imageI)
    qed
    then have "filter (same_id f d) xs = []" by (simp add: filter_empty_conv)
    with True Cons.prems(3) show ?thesis by simp
  next
    case False
    with Cons.prems have t: "t \<in> set xs" by simp
    have "\<not> same_id f d x"
    proof
      assume "same_id f d x"
      with Cons.prems(3) have "ident x = ident t" by (simp add: same_id_def ident_def)
      moreover from Cons.prems(1) have "ident x \<notin> ident ` set xs" by simp
      ultimately show False using t by (metis imageI)
    qed
    with Cons.IH [OF _ t Cons.prems(3)] Cons.prems(1) show ?thesis by simp
  qed
qed

lemma at_most_one:
  assumes "unique_ids s"
  shows "length (filter (same_id f d) (timers s @ tmptimers s)) \<le> 1"
proof (cases "t_find f d s")
  case None
  then have "filter (same_id f d) (timers s @ tmptimers s) = []"
    by (simp add: t_find_None live_def filter_empty_conv ball_Un)
  then show ?thesis by simp
next
  case (Some t)
  from t_find_Some [OF Some] assms
  have "filter (same_id f d) (live s) = [t]"
    unfolding unique_ids_def by (intro filter_same_id_unique) simp_all
  then show ?thesis by (simp add: live_def)
qed

lemma add_timeoutx_update:
  assumes u: "unique_ids s" and found: "t_find f d s = Some t"
    and w: "\<not> isnan w" and m: "LIBT_MOD \<in> flags"
  shows "\<exists>w'. snd (libt_add_timeoutx now w f d flags s) = t_add_sorted (t\<lparr>wakeup := w'\<rparr>) s
           \<and> filter (same_id f d) (live (snd (libt_add_timeoutx now w f d flags s))) = [t\<lparr>wakeup := w'\<rparr>]"
proof -
  let ?r = "snd (libt_add_timeoutx now w f d flags s)"
  from found w m obtain w' where r: "?r = t_add_sorted (t\<lparr>wakeup := w'\<rparr>) s"
    by (simp add: libt_add_timeoutx_def Let_def)
  have "unique_ids ?r" using u by (rule unique_ids_add_timeoutx)
  moreover have "t\<lparr>wakeup := w'\<rparr> \<in> set (live ?r)"
    by (simp add: r live_t_add_sorted)
  moreover have "same_id f d (t\<lparr>wakeup := w'\<rparr>)"
    using t_find_Some [OF found] by (simp add: same_id_def)
  ultimately have "filter (same_id f d) (live ?r) = [t\<lparr>wakeup := w'\<rparr>]"
    unfolding unique_ids_def by (intro filter_same_id_unique)
  with r show ?thesis by blast
qed

lemma add_timeoutx_exists:
  assumes ok: "fst (libt_add_timeoutx now w f d flags s) = Inr ()"
  shows "libt_timeout_exist f d (snd (libt_add_timeoutx now w f d flags s))"
proof -
  let ?r = "snd (libt_add_timeoutx now w f d flags s)"
  have "\<exists>t. t \<in> set (live ?r) \<and> same_id f d t"
  proof (cases "t_find f d s")
    case None
    let ?t = "\<lparr>addr = brk s, fn = f, dat = d,
               wakeup = (if LIBT_RELATIVE \<in> flags \<or> LIBT_REPEAT \<in> flags
                         then dadd w (Fin now) else w)\<rparr>"
    from ok None have "?r = t_add_sorted ?t (s\<lparr>brk := Suc (brk s)\<rparr>)"
      by (simp add: libt_add_timeoutx_def Let_def split: if_splits)
    then have "?t \<in> set (live ?r)" by (simp add: live_t_add_sorted)
    moreover have "same_id f d ?t" by (simp add: same_id_def)
    ultimately show ?thesis by blast
  next
    case (Some t)
    from ok Some obtain w' where "?r = t_add_sorted (t\<lparr>wakeup := w'\<rparr>) s"
      by (simp add: libt_add_timeoutx_def Let_def split: if_splits)
    then have "t\<lparr>wakeup := w'\<rparr> \<in> set (live ?r)" by (simp add: live_t_add_sorted)
    moreover have "same_id f d (t\<lparr>wakeup := w'\<rparr>)"
      using t_find_Some [OF Some] by (simp add: same_id_def)
    ultimately show ?thesis by blast
  qed
  then show ?thesis
    unfolding libt_timeout_exist_def t_find_None by blast
qed

lemma t_add_sorted_fields [simp]:
  "brk (t_add_sorted t s) = brk s" "freed (t_add_sorted t s) = freed s"
  "called (t_add_sorted t s) = called s"
  by (simp_all add: t_add_sorted_def t_del_def Let_def)

text \<open>
  C3: after every sequence of schedule, cancel and flush calls, with any callbacks, at
  most one timer of the two lists together has a given identity (fn, dat). Scheduling an
  identity twice with CREATE and UPDATE among the flags succeeds both times and leaves
  exactly one timer of that identity: the second call updates the record of the first
  (same address, nothing allocated, nothing freed), with a new wakeup. Each step of the
  code keeps identities unique: a scheduling call, a cancel, the move of the head to
  \<open>tmptimers\<close> before its callback runs, and the release of a record by the sweep; so
  they are unique in every state a callback sees as well.
\<close>

theorem one_timer_per_identity:
  "unique_ids libt_init
   \<and> (unique_ids s \<longrightarrow> api_run cb cs s = Some s' \<longrightarrow>
        length (filter (same_id f d) (timers s' @ tmptimers s')) \<le> 1)
   \<and> (unique_ids s \<longrightarrow> \<not> isnan w1 \<longrightarrow> \<not> isnan w2 \<longrightarrow>
        {LIBT_ADD, LIBT_MOD} \<subseteq> flags1 \<longrightarrow> {LIBT_ADD, LIBT_MOD} \<subseteq> flags2 \<longrightarrow>
        (let r1 = libt_add_timeoutx now1 w1 f d flags1 s;
             r2 = libt_add_timeoutx now2 w2 f d flags2 (snd r1)
         in fst r1 = Inr () \<and> fst r2 = Inr () \<and> libt_timeout_exist f d (snd r2)
            \<and> (\<exists>t w'. filter (same_id f d) (timers (snd r1) @ tmptimers (snd r1)) = [t]
                  \<and> filter (same_id f d) (timers (snd r2) @ tmptimers (snd r2)) = [t\<lparr>wakeup := w'\<rparr>])
            \<and> brk (snd r2) = brk (snd r1) \<and> freed (snd r2) = freed (snd r1)))
   \<and> (unique_ids s \<longrightarrow>
        unique_ids (snd (libt_add_timeoutx now w f d flags s))
        \<and> unique_ids (libt_remove_timeout f d s)
        \<and> (timers s = v # vs \<longrightarrow> unique_ids (t_add_tmp v s))
        \<and> unique_ids (free v (t_del v s)))"
proof (intro conjI impI)
  show "unique_ids libt_init"
    by (simp add: unique_ids_def live_def libt_init_def)
next
  assume "unique_ids s" "api_run cb cs s = Some s'"
  then have "unique_ids s'" by (rule unique_ids_api_run [rotated])
  then show "length (filter (same_id f d) (timers s' @ tmptimers s')) \<le> 1"
    by (rule at_most_one)
next
  assume u: "unique_ids s" and w1: "\<not> isnan w1" and w2: "\<not> isnan w2"
    and f1: "{LIBT_ADD, LIBT_MOD} \<subseteq> flags1" and f2: "{LIBT_ADD, LIBT_MOD} \<subseteq> flags2"
  let ?r1 = "libt_add_timeoutx now1 w1 f d flags1 s"
  let ?r2 = "libt_add_timeoutx now2 w2 f d flags2 (snd ?r1)"
  have ok1: "fst ?r1 = Inr ()"
    using add_timeoutx_fst [of now1 w1 f d flags1 s] w1 f1 by simp
  have ok2: "fst ?r2 = Inr ()"
    using add_timeoutx_fst [of now2 w2 f d flags2 "snd ?r1"] w2 f2 by simp
  have u1: "unique_ids (snd ?r1)" using u by (rule unique_ids_add_timeoutx)
  have "libt_timeout_exist f d (snd ?r1)" using ok1 by (rule add_timeoutx_exists)
  then obtain t where t: "t_find f d (snd ?r1) = Some t"
    by (auto simp: libt_timeout_exist_def)
  from t_find_Some [OF t] u1 have one: "filter (same_id f d) (live (snd ?r1)) = [t]"
    unfolding unique_ids_def by (intro filter_same_id_unique) simp_all
  from f2 have m: "LIBT_MOD \<in> flags2" by simp
  from add_timeoutx_update [OF u1 t w2 m, of now2] obtain w' where
    r2: "snd ?r2 = t_add_sorted (t\<lparr>wakeup := w'\<rparr>) (snd ?r1)"
    and two: "filter (same_id f d) (live (snd ?r2)) = [t\<lparr>wakeup := w'\<rparr>]"
    by blast
  have "libt_timeout_exist f d (snd ?r2)" using ok2 by (rule add_timeoutx_exists)
  moreover have "brk (snd ?r2) = brk (snd ?r1)" "freed (snd ?r2) = freed (snd ?r1)"
    by (simp_all add: r2)
  ultimately show "let r1 = ?r1; r2 = libt_add_timeoutx now2 w2 f d flags2 (snd r1)
     in fst r1 = Inr () \<and> fst r2 = Inr () \<and> libt_timeout_exist f d (snd r2)
        \<and> (\<exists>t w'. filter (same_id f d) (timers (snd r1) @ tmptimers (snd r1)) = [t]
              \<and> filter (same_id f d) (timers (snd r2) @ tmptimers (snd r2)) = [t\<lparr>wakeup := w'\<rparr>])
        \<and> brk (snd r2) = brk (snd r1) \<and> freed (snd r2) = freed (snd r1)"
    using ok1 ok2 one two unfolding Let_def live_def by blast
next
  assume u: "unique_ids s"
  then show "unique_ids (snd (libt_add_timeoutx now w f d flags s))"
    by (rule unique_ids_add_timeoutx)
  from u show "unique_ids (libt_remove_timeout f d s)" by (rule unique_ids_remove_timeout)
  from u show "unique_ids (free v (t_del v s))" by (rule unique_ids_free)
next
  assume "unique_ids s" "timers s = v # vs"
  from unique_ids_move [OF this, of "(fn v, dat v)"]
  show "unique_ids (t_add_tmp v s)" by (simp add: unique_ids_def live_def)
qed

theorem one_timer_per_identity_witness:
  "unique_ids libt_init
   \<and> api_run (\<lambda>_ _ _. [])
        [Schedule 0 (Fin 2) 1 0 {LIBT_ADD, LIBT_MOD}, Schedule 0 (Fin 1) 1 0 {LIBT_ADD, LIBT_MOD}]
        libt_init
       = Some \<lparr>timers = [\<lparr>addr = 0, fn = 1, dat = 0, wakeup = Fin 1\<rparr>],
                tmptimers = [], brk = 1, freed = [], called = []\<rparr>
   \<and> length (filter (same_id 1 0) [\<lparr>addr = 0, fn = 1, dat = 0, wakeup = Fin 1\<rparr>]) \<le> 1
   \<and> libt_timeout_exist 1 0
        (snd (libt_add_timeoutx 0 (Fin 1) 1 0 {LIBT_ADD, LIBT_MOD}
           (snd (libt_add_timeoutx 0 (Fin 2) 1 0 {LIBT_ADD, LIBT_MOD} libt_init))))"
  using one_timer_per_identity [of libt_init "\<lambda>_ _ _. []"
      "[Schedule 0 (Fin 2) 1 0 {LIBT_ADD, LIBT_MOD}, Schedule 0 (Fin 1) 1 0 {LIBT_ADD, LIBT_MOD}]"
      "\<lparr>timers = [\<lparr>addr = 0, fn = 1, dat = 0, wakeup = Fin 1\<rparr>],
        tmptimers = [], brk = 1, freed = [], called = []\<rparr>"
      1 0 "Fin 2" "Fin 1" "{LIBT_ADD, LIBT_MOD}" "{LIBT_ADD, LIBT_MOD}" 0 0]
  by (simp add: run_defs unique_ids_def live_def libt_timeout_exist_def)

section \<open>The next wakeup\<close>

lemma fl_nonneg_dle: "0 \<le> x \<Longrightarrow> dle (Fin 0) (fl x)"
  using fl_nonneg [of x] by (auto simp: dle_def)

lemma dadd_nonneg: "dle (Fin 0) a \<Longrightarrow> dle (Fin 0) b \<Longrightarrow> dle (Fin 0) (dadd a b)"
  by (cases a; cases b) (auto simp: dle_def fl_nonneg_dle [unfolded dle_def])

lemma set_live_t_add_sorted:
  "set (live (t_add_sorted t s)) = insert t {u \<in> set (live s). addr u \<noteq> addr t}"
  unfolding live_t_add_sorted by (auto simp: live_def)

lemma nonneg_add_timeoutx:
  assumes I: "\<forall>t \<in> set (live s). dle (Fin 0) (wakeup t)" and A: "nonneg_args now w f d flags"
  shows "\<forall>t \<in> set (live (snd (libt_add_timeoutx now w f d flags s))). dle (Fin 0) (wakeup t)"
proof (cases "t_find f d s")
  case None
  from A have "dle (Fin 0) (dadd w (Fin now))" "dle (Fin 0) w"
    by (simp_all add: nonneg_args_def dadd_nonneg)
  with I None show ?thesis
    by (auto simp: libt_add_timeoutx_def Let_def set_live_t_add_sorted)
next
  case (Some t)
  then have "dle (Fin 0) (wakeup t)" using I t_find_Some by blast
  with A have "dle (Fin 0) (dadd (wakeup t) w)" "dle (Fin 0) (dadd (Fin now) w)"
    "dle (Fin 0) (dadd w (Fin now))" "dle (Fin 0) w"
    by (simp_all add: nonneg_args_def dadd_nonneg)
  with I Some show ?thesis
    by (auto simp: libt_add_timeoutx_def Let_def set_live_t_add_sorted)
qed

lemma set_live_free: "set (live (free t (t_del t s))) \<subseteq> set (live s)"
  by (auto simp: live_def free_def t_del_def)

lemma set_live_remove: "set (live (libt_remove_timeout f d s)) \<subseteq> set (live s)"
  using set_live_free by (auto simp: libt_remove_timeout_def split: option.splits)

lemma set_live_move:
  "timers s = t # ts \<Longrightarrow>
   set (live ((t_add_tmp t s)\<lparr>called := called (t_add_tmp t s) @ [x]\<rparr>)) \<subseteq> set (live s)"
  by (auto simp: live_def t_add_tmp_def t_del_def t_add_def Let_def)

lemma nonneg_api_run:
  assumes run: "api_run cb cs s = Some s'"
    and cs: "\<forall>c \<in> set cs. api_ok nonneg_args c"
    and cb: "\<And>f d st. \<forall>c \<in> set (cb f d st). call_ok nonneg_args c"
    and start: "\<forall>t \<in> set (live s). dle (Fin 0) (wakeup t)"
  shows "\<forall>t \<in> set (live s'). dle (Fin 0) (wakeup t)"
proof (rule api_run_invariant_ok
    [where I = "\<lambda>s. \<forall>t \<in> set (live s). dle (Fin 0) (wakeup t)" and A = nonneg_args,
      OF _ _ _ _ _ run cs start])
  show "\<forall>c \<in> set (cb f d st). call_ok nonneg_args c" for f d st by (rule cb)
next
  fix now w f d flags and s :: libt
  assume "\<forall>t \<in> set (live s). dle (Fin 0) (wakeup t)" "nonneg_args now w f d flags"
  then show "\<forall>t \<in> set (live (snd (libt_add_timeoutx now w f d flags s))). dle (Fin 0) (wakeup t)"
    by (rule nonneg_add_timeoutx)
next
  fix f d and s :: libt
  assume "\<forall>t \<in> set (live s). dle (Fin 0) (wakeup t)"
  then show "\<forall>t \<in> set (live (libt_remove_timeout f d s)). dle (Fin 0) (wakeup t)"
    using set_live_remove by blast
next
  fix s :: libt and t ts
  assume "\<forall>t \<in> set (live s). dle (Fin 0) (wakeup t)" "timers s = t # ts"
  then show "\<forall>u \<in> set (live ((t_add_tmp t s)\<lparr>called := called (t_add_tmp t s) @ [(fn t, dat t)]\<rparr>)).
               dle (Fin 0) (wakeup u)"
    using set_live_move by blast
next
  fix s :: libt and t ts
  assume "\<forall>t \<in> set (live s). dle (Fin 0) (wakeup t)"
  then show "\<forall>u \<in> set (live (free t (t_del t s))). dle (Fin 0) (wakeup u)"
    using set_live_free by blast
qed

lemma nondecreasing_head:
  "nondecreasing (t # ts) \<Longrightarrow> u \<in> set (t # ts) \<Longrightarrow> \<not> dlt (wakeup u) (wakeup t)"
  by (auto simp: nondecreasing_def dlt_irrefl)

text \<open>
  C10, as stated: the wakeup \<open>libt_next_wakeup\<close> returns for a non-empty queue is never
  negative, so that \<open>-1\<close> tells the empty queue. A timer scheduled at the absolute time
  \<open>-1\<close> is accepted, and \<open>libt_next_wakeup\<close> returns \<open>-1\<close> with that timer pending.
\<close>

theorem next_wakeup_negative_counterexample:
  "timers (snd (libt_add_timeoutx 0 (Fin (- 1)) 0 0 {LIBT_ADD} libt_init)) \<noteq> []
   \<and> libt_next_wakeup (snd (libt_add_timeoutx 0 (Fin (- 1)) 0 0 {LIBT_ADD} libt_init)) = Fin (- 1)"
  by (simp add: run_defs libt_next_wakeup_def)

text \<open>
  C10, amended: \<open>libt_next_wakeup\<close> returns \<open>-1\<close> when the pending list is empty and
  the wakeup of its head otherwise; after any sequence of calls no pending timer has a
  smaller wakeup than the value returned. The value is non-negative, and so differs
  from \<open>-1\<close>, when every scheduling call, of the application and of the callbacks, read a
  non-negative clock and was given a non-negative time.
\<close>

theorem next_wakeup_head:
  "libt_next_wakeup s = (if timers s = [] then Fin (- 1) else wakeup (hd (timers s)))
   \<and> (api_run cb cs libt_init = Some s' \<longrightarrow>
        (\<forall>u \<in> set (timers s'). \<not> dlt (wakeup u) (libt_next_wakeup s')))
   \<and> (api_run cb cs libt_init = Some s' \<longrightarrow> (\<forall>c \<in> set cs. api_ok nonneg_args c) \<longrightarrow>
        (\<forall>f d st. \<forall>c \<in> set (cb f d st). call_ok nonneg_args c) \<longrightarrow> timers s' \<noteq> [] \<longrightarrow>
        dle (Fin 0) (libt_next_wakeup s') \<and> libt_next_wakeup s' \<noteq> Fin (- 1))"
proof (intro conjI impI ballI)
  show "libt_next_wakeup s = (if timers s = [] then Fin (- 1) else wakeup (hd (timers s)))"
    by (simp add: libt_next_wakeup_def split: list.splits)
next
  fix u
  assume run: "api_run cb cs libt_init = Some s'" and u: "u \<in> set (timers s')"
  have "nondecreasing (timers libt_init)" by (simp add: libt_init_def nondecreasing_def)
  with run have nd: "nondecreasing (timers s')" by (rule nondecreasing_api_run)
  from u obtain t ts where ts: "timers s' = t # ts" by (cases "timers s'") auto
  with nd u have "\<not> dlt (wakeup u) (wakeup t)" by (simp add: nondecreasing_head)
  with ts show "\<not> dlt (wakeup u) (libt_next_wakeup s')" by (simp add: libt_next_wakeup_def)
next
  assume run: "api_run cb cs libt_init = Some s'"
    and cs: "\<forall>c \<in> set cs. api_ok nonneg_args c"
    and cb: "\<forall>f d st. \<forall>c \<in> set (cb f d st). call_ok nonneg_args c"
    and ne: "timers s' \<noteq> []"
  have start: "\<forall>t \<in> set (live libt_init). dle (Fin 0) (wakeup t)"
    by (simp add: live_def libt_init_def)
  have all: "\<forall>t \<in> set (live s'). dle (Fin 0) (wakeup t)"
  proof (rule nonneg_api_run [OF run cs _ start])
    show "\<forall>c \<in> set (cb f d st). call_ok nonneg_args c" for f d st using cb by simp
  qed
  from ne obtain t ts where ts: "timers s' = t # ts" by (cases "timers s'") auto
  with all have "dle (Fin 0) (wakeup t)" by (simp add: live_def)
  with ts show nn: "dle (Fin 0) (libt_next_wakeup s')" by (simp add: libt_next_wakeup_def)
  then show "libt_next_wakeup s' \<noteq> Fin (- 1)" by auto
qed

theorem next_wakeup_head_witness:
  "api_run (\<lambda>_ _ _. []) [Schedule 0 (Fin 2) 1 0 {LIBT_ADD}, Schedule 0 (Fin 1) 2 0 {LIBT_ADD}] libt_init
     = Some \<lparr>timers = [\<lparr>addr = 1, fn = 2, dat = 0, wakeup = Fin 1\<rparr>,
                        \<lparr>addr = 0, fn = 1, dat = 0, wakeup = Fin 2\<rparr>],
              tmptimers = [], brk = 2, freed = [], called = []\<rparr>
   \<and> libt_next_wakeup \<lparr>timers = [\<lparr>addr = 1, fn = 2, dat = 0, wakeup = Fin 1\<rparr>,
                        \<lparr>addr = 0, fn = 1, dat = 0, wakeup = Fin 2\<rparr>],
              tmptimers = [], brk = 2, freed = [], called = []\<rparr> = Fin 1
   \<and> libt_next_wakeup libt_init = Fin (- 1)"
  using next_wakeup_head [of libt_init "\<lambda>_ _ _. []"
      "[Schedule 0 (Fin 2) 1 0 {LIBT_ADD}, Schedule 0 (Fin 1) 2 0 {LIBT_ADD}]"
      "\<lparr>timers = [\<lparr>addr = 1, fn = 2, dat = 0, wakeup = Fin 1\<rparr>,
                        \<lparr>addr = 0, fn = 1, dat = 0, wakeup = Fin 2\<rparr>],
              tmptimers = [], brk = 2, freed = [], called = []\<rparr>"]
  by (simp add: run_defs nonneg_args_def libt_next_wakeup_def)

section \<open>The order of the pending list\<close>

lemma no_nan_add_timeoutx:
  assumes I: "no_nan s" and A: "finite_args now w f d flags"
  shows "no_nan (snd (libt_add_timeoutx now w f d flags s))"
proof (cases w)
  case NaN
  with I show ?thesis by (simp add: libt_add_timeoutx_def)
next
  case (Fin x)
  from I have I': "\<forall>t \<in> set (live s). \<not> isnan (wakeup t)" by (simp add: no_nan_def live_def)
  have "\<forall>t \<in> set (live (snd (libt_add_timeoutx now w f d flags s))). \<not> isnan (wakeup t)"
  proof (cases "t_find f d s")
    case None
    with I' Fin show ?thesis
      by (auto simp: libt_add_timeoutx_def Let_def set_live_t_add_sorted)
  next
    case (Some t)
    then have "\<not> isnan (wakeup t)" using I' t_find_Some by blast
    with I' Some Fin show ?thesis
      by (auto simp: libt_add_timeoutx_def Let_def set_live_t_add_sorted)
  qed
  then show ?thesis by (simp add: no_nan_def live_def)
qed (use A in \<open>simp_all add: finite_args_def\<close>)

lemma no_nan_subset: "set (live s') \<subseteq> set (live s) \<Longrightarrow> no_nan s \<Longrightarrow> no_nan s'"
  unfolding no_nan_def live_def by blast

lemma no_nan_api_run:
  assumes run: "api_run cb cs s = Some s'"
    and cs: "\<forall>c \<in> set cs. api_ok finite_args c"
    and cb: "\<And>f d st. \<forall>c \<in> set (cb f d st). call_ok finite_args c"
    and start: "no_nan s"
  shows "no_nan s'"
proof (rule api_run_invariant_ok [where I = no_nan and A = finite_args, OF _ _ _ _ _ run cs start])
  show "\<forall>c \<in> set (cb f d st). call_ok finite_args c" for f d st by (rule cb)
next
  fix now w f d flags and s :: libt
  assume "no_nan s" "finite_args now w f d flags"
  then show "no_nan (snd (libt_add_timeoutx now w f d flags s))"
    by (rule no_nan_add_timeoutx)
next
  fix f d and s :: libt
  assume "no_nan s"
  with set_live_remove show "no_nan (libt_remove_timeout f d s)"
    by (rule no_nan_subset)
next
  fix s :: libt and t ts
  assume "no_nan s" "timers s = t # ts"
  then show "no_nan ((t_add_tmp t s)\<lparr>called := called (t_add_tmp t s) @ [(fn t, dat t)]\<rparr>)"
    using set_live_move [of s t ts] unfolding no_nan_def live_def by auto
next
  fix s :: libt and t ts
  assume "no_nan s"
  with set_live_free show "no_nan (free t (t_del t s))"
    by (rule no_nan_subset)
qed

lemma sorted_le_iff: "no_nan s \<Longrightarrow> sorted_le (timers s) = nondecreasing (timers s)"
  unfolding sorted_le_def no_nan_def by (subst nondecreasing_no_nan) simp_all


text \<open>
  C2, as stated: the pending list is sorted by wakeup, in the order \<open>\<le>\<close>, after every
  sequence of calls. The code refuses a time that is not a number but accepts the
  infinities: a timer scheduled at \<open>+\<infinity>\<close> and then moved by \<open>-\<infinity>\<close> with REPEAT has a
  wakeup that is not a number. The insertion scan passes it (no comparison with it is
  true), and a timer scheduled afterwards is linked behind it: the pending list is not
  in the order \<open>\<le>\<close>.
\<close>

theorem pending_sorted_counterexample:
  "api_run (\<lambda>_ _ _. [])
     [Schedule 0 PInf 1 0 {LIBT_ADD}, Schedule 0 NInf 1 0 {LIBT_MOD, LIBT_REPEAT},
      Schedule 0 (Fin 7) 2 0 {LIBT_ADD}, Schedule 0 (Fin 0.5) 3 0 {LIBT_ADD}] libt_init
     = Some \<lparr>timers = [\<lparr>addr = 0, fn = 1, dat = 0, wakeup = NaN\<rparr>,
                        \<lparr>addr = 2, fn = 3, dat = 0, wakeup = Fin 0.5\<rparr>,
                        \<lparr>addr = 1, fn = 2, dat = 0, wakeup = Fin 7\<rparr>],
              tmptimers = [], brk = 3, freed = [], called = []\<rparr>
   \<and> \<not> sorted_le [\<lparr>addr = 0, fn = 1, dat = 0, wakeup = NaN\<rparr>,
                    \<lparr>addr = 2, fn = 3, dat = 0, wakeup = Fin 0.5\<rparr>,
                    \<lparr>addr = 1, fn = 2, dat = 0, wakeup = Fin 7\<rparr>]
   \<and> \<not> dle NaN (Fin 0.5)"
proof (intro conjI)
  show "\<not> sorted_le [\<lparr>addr = 0, fn = 1, dat = 0, wakeup = NaN\<rparr>,
                      \<lparr>addr = 2, fn = 3, dat = 0, wakeup = Fin 0.5\<rparr>,
                      \<lparr>addr = 1, fn = 2, dat = 0, wakeup = Fin 7\<rparr>]"
    by (auto simp: sorted_le_def dle_def)
qed (simp_all add: run_defs dle_def)

text \<open>
  C2, amended: after every sequence of schedule, cancel and flush calls in which no call,
  of the application or of a callback, is given an infinite time, the pending list is
  sorted by wakeup in the order \<open>\<le>\<close>: every timer is at most every later one, and no
  wakeup is not a number. Each step of the code keeps this: a scheduling call with a
  time that is not infinite, a cancel, the move of the head to \<open>tmptimers\<close> before its
  callback runs, and the release of a record by the sweep; so the order also holds in
  every state a callback sees. After every sequence of calls whatsoever, no timer has a
  wakeup smaller than that of a timer before it. An insertion leaves the order of the
  other timers as it is and puts the timer before the first timer whose wakeup is
  strictly greater, so behind every timer with the same wakeup.
\<close>

theorem pending_sorted:
  "(api_run cb cs libt_init = Some s' \<longrightarrow> (\<forall>c \<in> set cs. api_ok finite_args c) \<longrightarrow>
      (\<forall>f d st. \<forall>c \<in> set (cb f d st). call_ok finite_args c) \<longrightarrow>
      sorted_le (timers s') \<and> no_nan s')
   \<and> (sorted_le (timers s) \<longrightarrow> no_nan s \<longrightarrow>
        api_run cb cs s = Some s' \<longrightarrow> (\<forall>c \<in> set cs. api_ok finite_args c) \<longrightarrow>
        (\<forall>f d st. \<forall>c \<in> set (cb f d st). call_ok finite_args c) \<longrightarrow>
        sorted_le (timers s') \<and> no_nan s')
   \<and> (sorted_le (timers s) \<longrightarrow> no_nan s \<longrightarrow>
        (finite_args now w f d flags \<longrightarrow>
           sorted_le (timers (snd (libt_add_timeoutx now w f d flags s)))
           \<and> no_nan (snd (libt_add_timeoutx now w f d flags s)))
        \<and> sorted_le (timers (libt_remove_timeout f d s)) \<and> no_nan (libt_remove_timeout f d s)
        \<and> (v \<in> set (timers s) \<longrightarrow>
             sorted_le (timers (t_add_tmp v s)) \<and> no_nan (t_add_tmp v s))
        \<and> sorted_le (timers (free v (t_del v s))) \<and> no_nan (free v (t_del v s)))
   \<and> nondecreasing (timers libt_init)
   \<and> (nondecreasing (timers s) \<longrightarrow> api_run cb cs s = Some s' \<longrightarrow> nondecreasing (timers s'))
   \<and> t_scan t xs = takeWhile (\<lambda>u. \<not> dlt (wakeup t) (wakeup u)) xs @ t #
                    dropWhile (\<lambda>u. \<not> dlt (wakeup t) (wakeup u)) xs
   \<and> (nondecreasing xs \<longrightarrow>
        (\<forall>u \<in> set xs. wakeup u = wakeup t \<longrightarrow>
           u \<in> set (takeWhile (\<lambda>u. \<not> dlt (wakeup t) (wakeup u)) xs)))"
proof -
  have gen: "sorted_le (timers s') \<and> no_nan s'"
    if "sorted_le (timers s)" "no_nan s" "api_run cb cs s = Some s'"
      "\<forall>c \<in> set cs. api_ok finite_args c"
      "\<forall>f d st. \<forall>c \<in> set (cb f d st). call_ok finite_args c"
    for s s' :: libt
  proof -
    have nn: "no_nan s'"
    proof (rule no_nan_api_run [OF that(3,4) _ that(2)])
      show "\<forall>c \<in> set (cb f d st). call_ok finite_args c" for f d st using that(5) by simp
    qed
    from that(1,2) have "nondecreasing (timers s)" by (simp add: sorted_le_iff)
    with that(3) have "nondecreasing (timers s')" by (rule nondecreasing_api_run)
    with nn show ?thesis by (simp add: sorted_le_iff)
  qed
  have init: "sorted_le (timers libt_init)" "no_nan libt_init"
    by (simp_all add: sorted_le_def no_nan_def libt_init_def)
  have mv: "set (live (t_add_tmp v s)) \<subseteq> set (live s) \<union> {v}" for v and s :: libt
    by (auto simp: live_def t_add_tmp_def t_del_def Let_def unlink_def t_add_def)
  have steps: "(finite_args now w f d flags \<longrightarrow>
           sorted_le (timers (snd (libt_add_timeoutx now w f d flags s)))
           \<and> no_nan (snd (libt_add_timeoutx now w f d flags s)))
        \<and> sorted_le (timers (libt_remove_timeout f d s)) \<and> no_nan (libt_remove_timeout f d s)
        \<and> (v \<in> set (timers s) \<longrightarrow>
             sorted_le (timers (t_add_tmp v s)) \<and> no_nan (t_add_tmp v s))
        \<and> sorted_le (timers (free v (t_del v s))) \<and> no_nan (free v (t_del v s))"
    if s: "sorted_le (timers s)" and n: "no_nan s"
  proof -
    from s n have nd: "nondecreasing (timers s)" by (simp add: sorted_le_iff)
    have a: "no_nan (snd (libt_add_timeoutx now w f d flags s))" if "finite_args now w f d flags"
      using n that by (rule no_nan_add_timeoutx)
    have r: "no_nan (libt_remove_timeout f d s)"
      using set_live_remove n by (rule no_nan_subset)
    have fr: "no_nan (free v (t_del v s))"
      using set_live_free n by (rule no_nan_subset)
    have m: "no_nan (t_add_tmp v s)" if "v \<in> set (timers s)"
      using n that by (auto simp: no_nan_def t_add_tmp_def t_del_def Let_def unlink_def t_add_def)
    have "nondecreasing (timers (snd (libt_add_timeoutx now w f d flags s)))"
      using nd by (rule nondecreasing_add_timeoutx)
    moreover have "nondecreasing (timers (libt_remove_timeout f d s))"
      using nd by (rule nondecreasing_remove_timeout)
    moreover have "nondecreasing (timers (t_add_tmp v s))"
      using nd by (simp add: t_add_tmp_def t_del_def Let_def nondecreasing_unlink)
    moreover have "nondecreasing (timers (free v (t_del v s)))"
      using nd by (rule nondecreasing_free)
    ultimately show ?thesis using a r fr m by (simp add: sorted_le_iff)
  qed
  show ?thesis
  proof (intro conjI impI ballI)
    assume "api_run cb cs libt_init = Some s'" "\<forall>c \<in> set cs. api_ok finite_args c"
      "\<forall>f d st. \<forall>c \<in> set (cb f d st). call_ok finite_args c"
    with gen [OF init] show "sorted_le (timers s')" "no_nan s'" by blast+
  next
    assume "sorted_le (timers s)" "no_nan s" "api_run cb cs s = Some s'"
      "\<forall>c \<in> set cs. api_ok finite_args c"
      "\<forall>f d st. \<forall>c \<in> set (cb f d st). call_ok finite_args c"
    from gen [OF this] show "sorted_le (timers s')" "no_nan s'" by blast+
  next
    assume a: "sorted_le (timers s)" "no_nan s"
    from steps [OF a]
    show "sorted_le (timers (libt_remove_timeout f d s))" "no_nan (libt_remove_timeout f d s)"
      "sorted_le (timers (free v (t_del v s)))" "no_nan (free v (t_del v s))"
      by blast+
    {
      assume "finite_args now w f d flags"
      with steps [OF a]
      show "sorted_le (timers (snd (libt_add_timeoutx now w f d flags s)))"
        "no_nan (snd (libt_add_timeoutx now w f d flags s))"
        by blast+
    }
    {
      assume "v \<in> set (timers s)"
      with steps [OF a]
      show "sorted_le (timers (t_add_tmp v s))" "no_nan (t_add_tmp v s)"
        by blast+
    }
  next
    show "nondecreasing (timers libt_init)"
      by (simp add: libt_init_def nondecreasing_def)
  next
    assume "nondecreasing (timers s)" "api_run cb cs s = Some s'"
    then show "nondecreasing (timers s')" by (rule nondecreasing_api_run [rotated])
  next
    show "t_scan t xs = takeWhile (\<lambda>u. \<not> dlt (wakeup t) (wakeup u)) xs @ t #
                        dropWhile (\<lambda>u. \<not> dlt (wakeup t) (wakeup u)) xs"
      by (rule t_scan_split)
  next
    fix u
    assume "nondecreasing xs" "u \<in> set xs" "wakeup u = wakeup t"
    then show "u \<in> set (takeWhile (\<lambda>u. \<not> dlt (wakeup t) (wakeup u)) xs)"
      by (rule equal_wakeup_before)
  qed
qed

theorem pending_sorted_witness:
  "api_run (\<lambda>_ _ _. [])
        [Schedule 0 (Fin 2) 1 0 {LIBT_ADD}, Schedule 0 (Fin 1) 2 0 {LIBT_ADD},
         Schedule 0 (Fin 2) 3 0 {LIBT_ADD}, Flush 1] libt_init
       = Some \<lparr>timers = [\<lparr>addr = 0, fn = 1, dat = 0, wakeup = Fin 2\<rparr>,
                          \<lparr>addr = 2, fn = 3, dat = 0, wakeup = Fin 2\<rparr>],
                tmptimers = [], brk = 3, freed = [1], called = [(2, 0)]\<rparr>
   \<and> sorted_le [\<lparr>addr = 0, fn = 1, dat = 0, wakeup = Fin 2\<rparr>,
                \<lparr>addr = 2, fn = 3, dat = 0, wakeup = Fin 2\<rparr>]
   \<and> sorted_le (timers (snd (libt_add_timeoutx 0 (Fin 1) 4 0 {LIBT_ADD}
        \<lparr>timers = [\<lparr>addr = 0, fn = 1, dat = 0, wakeup = Fin 2\<rparr>,
                    \<lparr>addr = 2, fn = 3, dat = 0, wakeup = Fin 2\<rparr>],
          tmptimers = [], brk = 3, freed = [1], called = [(2, 0)]\<rparr>)))
   \<and> t_scan \<lparr>addr = 2, fn = 3, dat = 0, wakeup = Fin 2\<rparr>
        [\<lparr>addr = 1, fn = 2, dat = 0, wakeup = Fin 1\<rparr>, \<lparr>addr = 0, fn = 1, dat = 0, wakeup = Fin 2\<rparr>]
       = [\<lparr>addr = 1, fn = 2, dat = 0, wakeup = Fin 1\<rparr>, \<lparr>addr = 0, fn = 1, dat = 0, wakeup = Fin 2\<rparr>,
          \<lparr>addr = 2, fn = 3, dat = 0, wakeup = Fin 2\<rparr>]"
proof -
  let ?cb = "\<lambda>(f :: nat) (d :: nat) (st :: libt). [] :: call list"
  let ?cs = "[Schedule 0 (Fin 2) 1 0 {LIBT_ADD}, Schedule 0 (Fin 1) 2 0 {LIBT_ADD},
              Schedule 0 (Fin 2) 3 0 {LIBT_ADD}, Flush 1]"
  let ?a = "\<lparr>addr = 0, fn = 1, dat = 0, wakeup = Fin 2\<rparr>"
  let ?b = "\<lparr>addr = 1, fn = 2, dat = 0, wakeup = Fin 1\<rparr>"
  let ?c = "\<lparr>addr = 2, fn = 3, dat = 0, wakeup = Fin 2\<rparr>"
  let ?s' = "\<lparr>timers = [?a, ?c], tmptimers = [], brk = 3, freed = [1], called = [(2, 0)]\<rparr>"
  note inst = pending_sorted [where cb = ?cb and cs = ?cs and s' = ?s' and s = ?s' and now = 0
      and w = "Fin 1" and f = 4 and d = 0 and flags = "{LIBT_ADD}" and v = ?a and t = ?c
      and xs = "[?b, ?a]"]
  have run: "api_run ?cb ?cs libt_init = Some ?s'"
    by (simp add: run_defs flush_ref_at_1)
  have ok: "\<forall>c \<in> set ?cs. api_ok finite_args c"
    "\<forall>f d st. \<forall>c \<in> set (?cb f d st). call_ok finite_args c"
    "finite_args 0 (Fin 1) 4 0 {LIBT_ADD}"
    by (simp_all add: finite_args_def)
  from inst run ok have s1: "sorted_le (timers ?s')" "no_nan ?s'" by blast+
  with inst ok have "sorted_le (timers (snd (libt_add_timeoutx 0 (Fin 1) 4 0 {LIBT_ADD} ?s')))"
    by blast
  moreover from inst have "t_scan ?c [?b, ?a] =
      takeWhile (\<lambda>u. \<not> dlt (wakeup ?c) (wakeup u)) [?b, ?a] @ ?c #
      dropWhile (\<lambda>u. \<not> dlt (wakeup ?c) (wakeup u)) [?b, ?a]"
    by blast
  then have "t_scan ?c [?b, ?a] = [?b, ?a, ?c]" by simp
  ultimately show ?thesis using run s1 by simp
qed

section \<open>The wait time\<close>

lemma MAXRESULT_val: "MAXRESULT = 1073741823"
  unfolding MAXRESULT_def by code_simp

lemma MAXRESULT_unat: "unat MAXRESULT = 1073741823"
  by (simp add: MAXRESULT_val)

lemma MAXRESULT_sint: "sint MAXRESULT = 1073741823"
  by (simp add: MAXRESULT_val)

lemma get_waittime_Fin:
  assumes "timers s = t # ts" "dmul (dsub (wakeup t) (Fin now)) (Fin 1000) = Fin x"
  shows "libt_get_waittime now s =
           Some (if x \<le> 0 then 0 else if 1073741823 < x then 1073741823 else \<lfloor>x\<rfloor>)"
proof (cases "x \<le> 0 \<or> 1073741823 < x")
  case True
  then show ?thesis
    using assms
    by (auto simp: libt_get_waittime_def Let_def MAXRESULT_unat MAXRESULT_sint dle_def dgt_def)
next
  case False
  then have pos: "0 < x" and le: "x \<le> 1073741823" by auto
  then have "trunc x = \<lfloor>x\<rfloor>" by (simp add: trunc_def)
  moreover have "0 \<le> \<lfloor>x\<rfloor>" using pos by simp
  moreover have "\<lfloor>x\<rfloor> \<le> 1073741823" using le by (simp add: floor_le_iff)
  ultimately have "d2i 32 (Fin x) = Some \<lfloor>x\<rfloor>" by simp
  then show ?thesis
    using assms False
    by (simp add: libt_get_waittime_def Let_def MAXRESULT_unat MAXRESULT_sint dle_def dgt_def)
qed

lemma get_waittime_special:
  assumes "timers s = t # ts"
  shows "dmul (dsub (wakeup t) (Fin now)) (Fin 1000) = PInf \<Longrightarrow>
           libt_get_waittime now s = Some 1073741823"
    and "dmul (dsub (wakeup t) (Fin now)) (Fin 1000) = NInf \<Longrightarrow>
           libt_get_waittime now s = Some 0"
    and "dmul (dsub (wakeup t) (Fin now)) (Fin 1000) = NaN \<Longrightarrow>
           libt_get_waittime now s = None"
  using assms
  by (simp_all add: libt_get_waittime_def Let_def dle_def dgt_def MAXRESULT_unat MAXRESULT_sint)

lemma get_waittime_nonempty:
  assumes "timers s = t # ts"
  shows "libt_get_waittime now s \<noteq> Some (- 1)"
proof (cases "dmul (dsub (wakeup t) (Fin now)) (Fin 1000)")
  case (Fin x)
  show ?thesis
  proof (cases "x \<le> 0")
    case True
    then show ?thesis unfolding get_waittime_Fin [OF assms Fin] by simp
  next
    case False
    then have "0 \<le> \<lfloor>x\<rfloor>" by simp
    then have "\<lfloor>x\<rfloor> \<noteq> - 1" by linarith
    with False show ?thesis unfolding get_waittime_Fin [OF assms Fin] by simp
  qed
qed (simp_all add: get_waittime_special [OF assms])

lemma isnan_waittime_product: "isnan (dmul (dsub w (Fin now)) (Fin 1000)) = isnan w"
proof (cases w)
  case (Fin x)
  then show ?thesis by (cases "fl (x - now)") (simp_all add: dsub_def)
qed (simp_all add: dsub_def)

text \<open>
  C8, as stated: the value returned for a non-empty queue is
  \<open>round ((next_wakeup - now) * 1000)\<close>, clamped. The conversion to \<open>int\<close> truncates:
  with the head due in 1.953125 ms (a difference and a product that are exact in
  binary64) the function returns 1, and rounding gives 2.
\<close>

theorem get_waittime_truncates_counterexample:
  "libt_get_waittime 0 \<lparr>timers = [\<lparr>addr = 0, fn = 0, dat = 0, wakeup = Fin 0.001953125\<rparr>],
       tmptimers = [], brk = 1, freed = [], called = []\<rparr> = Some 1
   \<and> dmul (dsub (Fin 0.001953125) (Fin 0)) (Fin 1000) = Fin 1.953125
   \<and> round (1.953125 :: real) = 2"
proof -
  have p: "dmul (dsub (Fin 0.001953125) (Fin 0)) (Fin 1000) = Fin 1.953125"
    by code_simp
  have "round (1.953125 :: real) = 2" by (simp add: round_def)
  moreover have "libt_get_waittime 0
       \<lparr>timers = [\<lparr>addr = 0, fn = 0, dat = 0, wakeup = Fin 0.001953125\<rparr>],
       tmptimers = [], brk = 1, freed = [], called = []\<rparr> = Some 1"
    using get_waittime_Fin [where t = "\<lparr>addr = 0, fn = 0, dat = 0, wakeup = Fin 0.001953125\<rparr>"
        and ts = "[]" and now = 0 and x = "1.953125"] p
    by simp
  ultimately show ?thesis using p by simp
qed

text \<open>
  C8, amended: \<open>libt_get_waittime\<close> returns \<open>-1\<close> if and only if the pending list is
  empty. Otherwise let \<open>x\<close> be \<open>(wakeup - now) * 1000\<close> for the wakeup of the head, computed
  in binary64 arithmetic (the difference is rounded, then the product). The function
  returns 0 when \<open>x \<le> 0\<close>, the maximum 1073741823 (a quarter of the largest
  \<open>unsigned int\<close>) when \<open>x\<close> is above it, and otherwise \<open>x\<close> truncated to an integer. An
  infinite \<open>x\<close> gives 0 or the maximum; \<open>x\<close> is not a number exactly when the wakeup is not
  a number, and then the result is not defined.
\<close>

theorem get_waittime_value:
  "(libt_get_waittime now s = Some (- 1)) = (timers s = [])
   \<and> (timers s = t # ts \<longrightarrow> dmul (dsub (wakeup t) (Fin now)) (Fin 1000) = Fin x \<longrightarrow>
        libt_get_waittime now s =
          Some (if x \<le> 0 then 0 else if 1073741823 < x then 1073741823 else \<lfloor>x\<rfloor>))
   \<and> (timers s = t # ts \<longrightarrow> dmul (dsub (wakeup t) (Fin now)) (Fin 1000) = PInf \<longrightarrow>
        libt_get_waittime now s = Some 1073741823)
   \<and> (timers s = t # ts \<longrightarrow> dmul (dsub (wakeup t) (Fin now)) (Fin 1000) = NInf \<longrightarrow>
        libt_get_waittime now s = Some 0)
   \<and> (timers s = t # ts \<longrightarrow> dmul (dsub (wakeup t) (Fin now)) (Fin 1000) = NaN \<longrightarrow>
        libt_get_waittime now s = None)
   \<and> isnan (dmul (dsub (wakeup t) (Fin now)) (Fin 1000)) = isnan (wakeup t)
   \<and> (wakeup t = Fin w \<longrightarrow>
        dmul (dsub (wakeup t) (Fin now)) (Fin 1000) = dmul (fl (w - now)) (Fin 1000))
   \<and> dmul (Fin w) (Fin 1000) = fl (w * 1000)
   \<and> sint MAXRESULT = 1073741823"
proof (intro conjI impI)
  show "(libt_get_waittime now s = Some (- 1)) = (timers s = [])"
  proof (cases "timers s")
    case Nil
    then show ?thesis by (simp add: libt_get_waittime_def)
  next
    case (Cons u us)
    then show ?thesis using get_waittime_nonempty [OF Cons] by simp
  qed
next
  show "wakeup t = Fin w \<Longrightarrow>
        dmul (dsub (wakeup t) (Fin now)) (Fin 1000) = dmul (fl (w - now)) (Fin 1000)"
    by (simp add: dsub_def)
qed (simp_all add: get_waittime_Fin get_waittime_special MAXRESULT_sint isnan_waittime_product)

theorem get_waittime_value_witness:
  "libt_get_waittime 1 \<lparr>timers = [\<lparr>addr = 0, fn = 0, dat = 0, wakeup = Fin 3.5\<rparr>],
       tmptimers = [], brk = 1, freed = [], called = []\<rparr> = Some 2500
   \<and> libt_get_waittime 0
       \<lparr>timers = [\<lparr>addr = 0, fn = 0, dat = 0,
                    wakeup = Fin (5404319552844595 / 18014398509481984)\<rparr>],
       tmptimers = [], brk = 1, freed = [], called = []\<rparr> = Some 300
   \<and> fl (3 / 10) = Fin (5404319552844595 / 18014398509481984)
   \<and> libt_get_waittime 1 libt_init = Some (- 1)"
proof -
  have p: "dmul (dsub (Fin 3.5) (Fin 1)) (Fin 1000) = Fin 2500"
    by code_simp
  have q: "dmul (dsub (Fin (5404319552844595 / 18014398509481984)) (Fin 0)) (Fin 1000) = Fin 300"
    by code_simp
  have r: "fl (3 / 10) = Fin (5404319552844595 / 18014398509481984)"
    by code_simp
  show ?thesis
    using get_waittime_value [of 1 "\<lparr>timers = [\<lparr>addr = 0, fn = 0, dat = 0, wakeup = Fin 3.5\<rparr>],
       tmptimers = [], brk = 1, freed = [], called = []\<rparr>"
       "\<lparr>addr = 0, fn = 0, dat = 0, wakeup = Fin 3.5\<rparr>" "[]" 2500]
      get_waittime_value [of 0 "\<lparr>timers = [\<lparr>addr = 0, fn = 0, dat = 0,
                    wakeup = Fin (5404319552844595 / 18014398509481984)\<rparr>],
       tmptimers = [], brk = 1, freed = [], called = []\<rparr>"
       "\<lparr>addr = 0, fn = 0, dat = 0, wakeup = Fin (5404319552844595 / 18014398509481984)\<rparr>"
       "[]" 300]
      get_waittime_value [of 1 libt_init] p q r
    by (simp add: libt_init_def)
qed

section \<open>Time to the next interval\<close>

lemma tti_value_small:
  "\<not> dge interval (Fin (3600 * 1.5)) \<Longrightarrow>
   tti_value g walltime interval offset = Some (dsub interval (fmod (dsub walltime offset) interval))"
  by (simp add: tti_value_def)

text \<open>
  With interval 0.25 and pad 0.5 the value is below the pad at every wall time that is a
  multiple of the interval, and the restart time is such a wall time again (the sums are
  rounded, and stay multiples of a quarter below \<open>2 ^ 54\<close>): the recursion does not end.
\<close>

lemma trunc_of_int [simp]: "trunc (of_int j) = j"
  by (simp add: trunc_def)

lemma tti_quarter_values:
  "fl (1 / 4) = Fin (1 / 4)" "tti_pad (Fin (1 / 2)) = Fin (1 / 2)"
  by code_simp+

lemma tti_quarter_step:
  assumes r: "fl x = Fin x" and q: "x = of_int j / 4" and lo: "0 \<le> x" and hi: "x \<le> 2 ^ 54"
  shows "tti_value g (Fin x) (Fin (1 / 4)) (Fin 0) = Some (Fin (1 / 4))"
    and "\<exists>z i. dadd (dadd (Fin x) (Fin (1 / 4))) (Fin (1 / 2)) = Fin z
           \<and> fl z = Fin z \<and> z = of_int i / 4 \<and> 0 \<le> z \<and> z \<le> 2 ^ 54"
proof -
  have m: "fmod (Fin x) (Fin (1 / 4)) = Fin 0" by (simp add: q)
  have s: "dsub (Fin x) (Fin 0) = Fin x" by (simp add: dsub_def r)
  have "tti_value g (Fin x) (Fin (1 / 4)) (Fin 0)
          = Some (dsub (Fin (1 / 4)) (fmod (dsub (Fin x) (Fin 0)) (Fin (1 / 4))))"
    by (rule tti_value_small) (simp add: dge_def dle_def)
  also have "\<dots> = Some (Fin (1 / 4))"
    unfolding s m by (simp add: dsub_def tti_quarter_values)
  finally show "tti_value g (Fin x) (Fin (1 / 4)) (Fin 0) = Some (Fin (1 / 4))" .
  from fl_bound [of "x + 1 / 4"] lo hi obtain y where
    y: "fl (x + 1 / 4) = Fin y" "0 \<le> y" "y \<le> 2 ^ 54"
    by auto
  have "x + 1 / 4 = of_int (j + 1) / 4" by (simp add: q)
  from fl_quarter [OF this y(1)] obtain k :: int where k: "y = of_int k / 4" by blast
  from fl_bound [of "y + 1 / 2"] y(2,3) obtain z where
    z: "fl (y + 1 / 2) = Fin z" "0 \<le> z" "z \<le> 2 ^ 54"
    by auto
  have "y + 1 / 2 = of_int (k + 2) / 4" by (simp add: k)
  from fl_quarter [OF this z(1)] obtain i :: int where i: "z = of_int i / 4" by blast
  have "dadd (dadd (Fin x) (Fin (1 / 4))) (Fin (1 / 2)) = Fin z" by (simp add: y(1) z(1))
  moreover have "fl z = Fin z" using z(1) by (rule fl_idem)
  ultimately show "\<exists>z i. dadd (dadd (Fin x) (Fin (1 / 4))) (Fin (1 / 2)) = Fin z
           \<and> fl z = Fin z \<and> z = of_int i / 4 \<and> 0 \<le> z \<and> z \<le> 2 ^ 54"
    using i z(2,3) by blast
qed

lemma tti_no_return:
  assumes "fl x = Fin x" "x = of_int j / 4" "0 \<le> x" "x \<le> 2 ^ 54"
  shows "libt_timetointerval4 g (Fin x) (Fin (1 / 4)) (Fin 0) (Fin (1 / 2)) = None"
proof (rule ccontr)
  assume "libt_timetointerval4 g (Fin x) (Fin (1 / 4)) (Fin 0) (Fin (1 / 2)) \<noteq> None"
  then obtain y where
    run: "libt_timetointerval4 g (Fin x) (Fin (1 / 4)) (Fin 0) (Fin (1 / 2)) = Some y"
    by auto
  let ?W = "\<lambda>w. \<exists>x j. w = Fin x \<and> fl x = Fin x \<and> x = of_int j / 4 \<and> 0 \<le> x \<and> x \<le> 2 ^ 54"
  let ?P = "\<lambda>(h :: int \<Rightarrow> int option) w i off p (r :: double).
              ?W w \<and> i = Fin (1 / 4) \<and> off = Fin 0 \<and> p = Fin (1 / 2) \<longrightarrow> False"
  have "?P g (Fin x) (Fin (1 / 4)) (Fin 0) (Fin (1 / 2)) y"
  proof (rule libt_timetointerval4.raw_induct [where P = ?P, OF _ run])
    fix rec h w i off p r
    assume IH: "\<And>h w i off p r. rec h w i off p = Some r \<Longrightarrow> ?P h w i off p r"
      and body: "(case tti_value h w i off of
                    None \<Rightarrow> None
                  | Some v \<Rightarrow>
                      if dlt v (tti_pad p) then
                        Option.bind (rec h (dadd (dadd w v) (tti_pad p)) i off (tti_pad p))
                          (\<lambda>r. Some (dadd (dadd v (tti_pad p)) r))
                      else Some v) = Some r"
    show "?P h w i off p r"
    proof
      assume a: "?W w \<and> i = Fin (1 / 4) \<and> off = Fin 0 \<and> p = Fin (1 / 2)"
      then obtain x j where w: "w = Fin x" "fl x = Fin x" "x = of_int j / 4" "0 \<le> x" "x \<le> 2 ^ 54"
        by blast
      from tti_quarter_step(1) [OF w(2-5), of h]
      have v: "tti_value h w i off = Some (Fin (1 / 4))" using a w(1) by simp
      from tti_quarter_step(2) [OF w(2-5)] obtain z k where
        nx: "dadd (dadd w (Fin (1 / 4))) (Fin (1 / 2)) = Fin z"
        and z: "fl z = Fin z" "z = of_int k / 4" "0 \<le> z" "z \<le> 2 ^ 54"
        unfolding w(1) by blast
      from body have "Option.bind (rec h (Fin z) (Fin (1 / 4)) (Fin 0) (Fin (1 / 2)))
                        (\<lambda>r. Some (dadd (dadd (Fin (1 / 4)) (Fin (1 / 2))) r)) = Some r"
        unfolding v option.case using a nx by (simp add: tti_quarter_values)
      then obtain r' where rr: "rec h (Fin z) (Fin (1 / 4)) (Fin 0) (Fin (1 / 2)) = Some r'"
        by (cases "rec h (Fin z) (Fin (1 / 4)) (Fin 0) (Fin (1 / 2))") auto
      from z have "?W (Fin z)" by blast
      with IH [OF rr] show False by blast
    qed
  qed
  moreover have "?W (Fin x)" using assms by blast
  ultimately show False by blast
qed

lemma tti_no_return_0: "libt_timetointerval4 g (Fin 0) (Fin (1 / 4)) (Fin 0) (Fin (1 / 2)) = None"
  using tti_no_return [where x = 0 and j = 0 and g = g] by simp

lemma tti_skip_values:
  "tti_value (\<lambda>t. Some 0) (Fin 0.25) (Fin 0.5) (Fin 0) = Some (Fin 0.25)
   \<and> tti_pad (Fin 0.5) = Fin 0.5
   \<and> dadd (dadd (Fin 0.25) (Fin 0.25)) (Fin 0.5) = Fin 1
   \<and> tti_value (\<lambda>t. Some 0) (Fin 1) (Fin 0.5) (Fin 0) = Some (Fin 0.5)
   \<and> dadd (dadd (Fin 0.25) (Fin 0.5)) (Fin 0.5) = Fin 1.25
   \<and> dadd (Fin 0.25) (Fin 0.5) = Fin 0.75"
  by code_simp

lemma tti_hour_values:
  "tti_value (\<lambda>t. Some 0) (Fin 3600) (Fin 3600) (Fin 0) = Some (Fin 3600)
   \<and> tti_pad (fl (1 / 1000)) = fl (1 / 1000)
   \<and> \<not> dlt (Fin 3600) (fl (1 / 1000))"
  by code_simp

text \<open>
  C9: for an interval below 1.5 hours the delay is \<open>interval - fmod (walltime - offset,
  interval)\<close>, with no time zone adjustment, and a result below the pad is to skip forward
  one more interval (the code says \<open>skip 1\<close>). The code restarts the computation at
  \<open>walltime + value + pad\<close> instead of adding one interval. At wall time 0.25 with interval
  0.5 and pad 0.5 the value 0.25 is below the pad; one more interval gives 0.75, and the
  code returns 1.25, two intervals further. With a pad above the interval the recursion
  need not end: at wall time 0, interval 0.25 and pad 0.5 the call does not return. The
  call of the example, \<open>(3600, 3600, 0, 0.001)\<close>, returns 3600.
\<close>

theorem timetointerval_skips_two:
  "tti_value (\<lambda>t. Some 0) (Fin 0.25) (Fin 0.5) (Fin 0) = Some (Fin 0.25)
   \<and> dlt (Fin 0.25) (tti_pad (Fin 0.5))
   \<and> dadd (Fin 0.25) (Fin 0.5) = Fin 0.75
   \<and> libt_timetointerval4 (\<lambda>t. Some 0) (Fin 0.25) (Fin 0.5) (Fin 0) (Fin 0.5) = Some (Fin 1.25)
   \<and> libt_timetointerval4 (\<lambda>t. Some 0) (Fin 0) (Fin 0.25) (Fin 0) (Fin 0.5) = None
   \<and> libt_timetointerval4 (\<lambda>t. Some 0) (Fin 3600) (Fin 3600) (Fin 0) (fl (1 / 1000))
       = Some (Fin 3600)"
proof (intro conjI)
  show "libt_timetointerval4 (\<lambda>t. Some 0) (Fin 0) (Fin 0.25) (Fin 0) (Fin 0.5) = None"
    using tti_no_return_0 [of "\<lambda>t. Some 0"] by simp
  show "libt_timetointerval4 (\<lambda>t. Some 0) (Fin 0.25) (Fin 0.5) (Fin 0) (Fin 0.5) = Some (Fin 1.25)"
    using tti_skip_values
    by (subst libt_timetointerval4.simps, simp, subst libt_timetointerval4.simps, simp)
  show "libt_timetointerval4 (\<lambda>t. Some 0) (Fin 3600) (Fin 3600) (Fin 0) (fl (1 / 1000))
       = Some (Fin 3600)"
    using tti_hour_values by (subst libt_timetointerval4.simps) simp
qed (use tti_skip_values in simp_all)


section \<open>The flush pass\<close>

lemma unlink_id: "\<forall>u \<in> set xs. addr u \<noteq> a \<Longrightarrow> unlink a xs = xs"
  by (simp add: unlink_def)

lemma unlink_head: "\<forall>u \<in> set xs. addr u \<noteq> addr t \<Longrightarrow> unlink (addr t) (t # xs) = xs"
  by (simp add: unlink_def)

lemma t_add_tmp_head:
  assumes "timers s = t # ts" "distinct (map addr (live s))"
  shows "t_add_tmp t s = s\<lparr>timers := ts, tmptimers := t # tmptimers s\<rparr>"
proof -
  from assms have "addr t \<notin> addr ` set ts" "addr t \<notin> addr ` set (tmptimers s)"
    by (simp_all add: live_def)
  then have "\<forall>u \<in> set ts. addr u \<noteq> addr t" "\<forall>u \<in> set (tmptimers s). addr u \<noteq> addr t"
    by (metis imageI)+
  then have "unlink (addr t) (timers s) = ts" "unlink (addr t) (tmptimers s) = tmptimers s"
    using assms(1) by (simp_all add: unlink_head unlink_id)
  then show ?thesis by (simp add: t_add_tmp_def t_del_def t_add_def Let_def)
qed

lemma flush_loop_quiet:
  assumes "timers s = D @ R" "distinct (map addr (live s))"
    and "\<forall>t \<in> set D. due ref t \<and> (\<forall>st. cb (fn t) (dat t) st = [])"
  shows "flush_loop cb ref s cnt =
         flush_loop cb ref
           (s\<lparr>timers := R, tmptimers := rev D @ tmptimers s, called := called s @ map ident D\<rparr>)
           (cnt + of_nat (length D))"
  using assms
proof (induction D arbitrary: s cnt)
  case Nil
  then have "timers s = R" by simp
  then have "s\<lparr>timers := R\<rparr> = s" by (cases s) simp
  then show ?case by simp
next
  case (Cons t D)
  let ?s1 = "s\<lparr>timers := D @ R, tmptimers := t # tmptimers s, called := called s @ [ident t]\<rparr>"
  from Cons.prems(1) have ts: "timers s = t # (D @ R)" by simp
  from Cons.prems(3) have due: "\<not> dgt (wakeup t) ref" and quiet: "\<And>st. cb (fn t) (dat t) st = []"
    by (simp_all add: due_def)
  have inv: "invoke cb t (t_add_tmp t s) = ?s1"
    by (simp add: invoke_def quiet t_add_tmp_head [OF ts Cons.prems(2)] ident_def)
  have step: "flush_loop cb ref s cnt = flush_loop cb ref ?s1 (cnt + 1)"
    by (subst flush_loop.simps) (simp add: ts due inv)
  have d1: "distinct (map addr (live ?s1))"
    using Cons.prems(1,2) by (auto simp: live_def)
  have "flush_loop cb ref ?s1 (cnt + 1) =
        flush_loop cb ref
          (?s1\<lparr>timers := R, tmptimers := rev D @ tmptimers ?s1, called := called ?s1 @ map ident D\<rparr>)
          (cnt + 1 + of_nat (length D))"
    using Cons.prems(3) by (intro Cons.IH d1) simp_all
  with step show ?case by (simp add: add.assoc)
qed

lemma flush_loop_stop:
  assumes "timers s = [] \<or> \<not> due ref (hd (timers s))"
  shows "flush_loop cb ref s cnt = Some (cnt, s)"
  using assms by (subst flush_loop.simps) (auto simp: due_def split: list.splits)

lemma flush_cleanup_all:
  assumes "distinct (map addr (live s))"
  shows "flush_cleanup s = s\<lparr>tmptimers := [], freed := freed s @ map addr (tmptimers s)\<rparr>"
  using assms
proof (induction "tmptimers s" arbitrary: s)
  case Nil
  then show ?case by (subst flush_cleanup.simps) simp
next
  case (Cons t ts)
  let ?s1 = "s\<lparr>tmptimers := ts, freed := freed s @ [addr t]\<rparr>"
  from Cons.hyps(2) [symmetric] Cons.prems
  have "addr t \<notin> addr ` set ts" "addr t \<notin> addr ` set (timers s)"
    by (auto simp: live_def)
  then have "\<forall>u \<in> set ts. addr u \<noteq> addr t" "\<forall>u \<in> set (timers s). addr u \<noteq> addr t"
    by (metis imageI)+
  then have "unlink (addr t) (tmptimers s) = ts" "unlink (addr t) (timers s) = timers s"
    using Cons.hyps(2) [symmetric] by (simp_all add: unlink_head unlink_id)
  then have s1: "free t (t_del t s) = ?s1" by (simp add: free_def t_del_def)
  have "distinct (map addr (live ?s1))"
    using Cons.hyps(2) [symmetric] Cons.prems by (auto simp: live_def)
  moreover have "ts = tmptimers ?s1" by simp
  ultimately have "flush_cleanup ?s1 = ?s1\<lparr>tmptimers := [], freed := freed ?s1 @ map addr (tmptimers ?s1)\<rparr>"
    by (rule Cons.hyps(1) [rotated])
  then show ?case
    using Cons.hyps(2) [symmetric] s1 by (subst flush_cleanup.simps) simp
qed

lemma flush_loop_quiet_stop:
  assumes ts: "timers s = D @ R" and d: "distinct (map addr (live s))"
    and q: "\<forall>t \<in> set D. due ref t \<and> (\<forall>st. cb (fn t) (dat t) st = [])"
    and stop: "R = [] \<or> \<not> due ref (hd R)"
  shows "flush_loop cb ref s cnt =
         Some (cnt + of_nat (length D),
               s\<lparr>timers := R, tmptimers := rev D @ tmptimers s, called := called s @ map ident D\<rparr>)"
  unfolding flush_loop_quiet [OF ts d q]
  using stop by (intro flush_loop_stop) simp

lemma libt_flush_result:
  assumes loop: "flush_loop cb (flush_ref now) s 0 = Some (cnt, s1)"
    and d: "distinct (map addr (live s1))"
  shows "libt_flush cb now s =
         Some (cnt, s1\<lparr>tmptimers := [], freed := freed s1 @ map addr (tmptimers s1)\<rparr>)"
  using loop by (simp add: libt_flush_def flush_cleanup_all [OF d])

lemma takeWhile_stop: "dropWhile P xs = [] \<or> \<not> P (hd (dropWhile P xs))"
  by (metis hd_dropWhile)

lemma distinct_addr_rotate:
  "distinct (map addr (D @ R @ T)) \<Longrightarrow> distinct (map addr (R @ rev D @ T))"
  by (auto simp: rev_map [symmetric])

lemma libt_flush_quiet:
  assumes d: "distinct (map addr (live s))"
    and q: "\<forall>t \<in> set (takeWhile (due (flush_ref now)) (timers s)). \<forall>st. cb (fn t) (dat t) st = []"
  shows "libt_flush cb now s =
         Some (of_nat (length (takeWhile (due (flush_ref now)) (timers s))),
               s\<lparr>timers := dropWhile (due (flush_ref now)) (timers s),
                  tmptimers := [],
                  freed := freed s @ map addr (rev (takeWhile (due (flush_ref now)) (timers s))
                                               @ tmptimers s),
                  called := called s @ map ident (takeWhile (due (flush_ref now)) (timers s))\<rparr>)"
proof -
  let ?ref = "flush_ref now"
  let ?D = "takeWhile (due ?ref) (timers s)"
  let ?R = "dropWhile (due ?ref) (timers s)"
  let ?s1 = "s\<lparr>timers := ?R, tmptimers := rev ?D @ tmptimers s, called := called s @ map ident ?D\<rparr>"
  have ts: "timers s = ?D @ ?R" by simp
  have q': "\<forall>t \<in> set ?D. due ?ref t \<and> (\<forall>st. cb (fn t) (dat t) st = [])"
    using q by (auto dest: set_takeWhileD)
  have loop: "flush_loop cb ?ref s 0 = Some (0 + of_nat (length ?D), ?s1)"
    by (rule flush_loop_quiet_stop [OF ts d q' takeWhile_stop])
  have ls: "live s = ?D @ ?R @ tmptimers s" by (simp add: live_def)
  have "distinct (map addr (?D @ ?R @ tmptimers s))"
    using d by (simp only: ls)
  then have "distinct (map addr (?R @ rev ?D @ tmptimers s))"
    by (rule distinct_addr_rotate)
  then have d1: "distinct (map addr (live ?s1))"
    by (simp add: live_def)
  show ?thesis
    using libt_flush_result [OF _ d1, of cb now s "of_nat (length ?D)"] loop by simp
qed

lemma due_filter:
  assumes "nondecreasing xs" "\<forall>u \<in> set xs. \<not> isnan (wakeup u)" "\<not> isnan ref"
  shows "takeWhile (due ref) xs = filter (\<lambda>t. dle (wakeup t) ref) xs
       \<and> dropWhile (due ref) xs = filter (\<lambda>t. dgt (wakeup t) ref) xs"
  using assms
proof (induction xs)
  case Nil
  then show ?case by simp
next
  case (Cons x xs)
  have eq: "due ref u = dle (wakeup u) ref" if "u \<in> set (x # xs)" for u
    using Cons.prems(2,3) that by (auto simp: due_def dle_def dgt_def)
  show ?case
  proof (cases "due ref x")
    case True
    with Cons eq show ?thesis by (auto simp: nondecreasing_def due_def)
  next
    case False
    then have x: "dlt ref (wakeup x)" by (simp add: due_def dgt_def)
    have "dgt (wakeup u) ref" if "u \<in> set xs" for u
    proof -
      from Cons.prems(1) that have "\<not> dlt (wakeup u) (wakeup x)" by (simp add: nondecreasing_def)
      with x Cons.prems(2,3) that show ?thesis
        unfolding dgt_def by (cases ref; cases "wakeup x"; cases "wakeup u") auto
    qed
    then have "filter (\<lambda>t. dle (wakeup t) ref) xs = []" "filter (\<lambda>t. dgt (wakeup t) ref) xs = xs"
      by (auto simp: filter_empty_conv dle_def dgt_def filter_id_conv)
    with False x show ?thesis by (simp add: due_def dle_def dgt_def)
  qed
qed

lemma libt_flush_one_active:
  assumes ts: "timers s = D1 @ t # rest"
    and d: "distinct (map addr (live s))"
    and q1: "\<forall>u \<in> set D1. due (flush_ref now) u \<and> (\<forall>st. cb (fn u) (dat u) st = [])"
    and dt: "due (flush_ref now) t"
    and act: "invoke cb t (s\<lparr>timers := rest, tmptimers := t # rev D1 @ tmptimers s,
                              called := called s @ map ident D1\<rparr>) = sC"
    and tsC: "timers sC = D2 @ R"
    and dC: "distinct (map addr (live sC))"
    and q2: "\<forall>u \<in> set D2. due (flush_ref now) u \<and> (\<forall>st. cb (fn u) (dat u) st = [])"
    and stop: "R = [] \<or> \<not> due (flush_ref now) (hd R)"
  shows "libt_flush cb now s =
         Some (of_nat (length D1) + 1 + of_nat (length D2),
               sC\<lparr>timers := R, tmptimers := [],
                  freed := freed sC @ map addr (rev D2 @ tmptimers sC),
                  called := called sC @ map ident D2\<rparr>)"
proof -
  let ?ref = "flush_ref now"
  let ?sA = "s\<lparr>timers := t # rest, tmptimers := rev D1 @ tmptimers s,
               called := called s @ map ident D1\<rparr>"
  have l1: "flush_loop cb ?ref s 0 = flush_loop cb ?ref ?sA (0 + of_nat (length D1))"
    by (rule flush_loop_quiet [OF ts d q1])
  have "distinct (map addr (D1 @ (t # rest) @ tmptimers s))"
    using d ts by (simp add: live_def)
  then have "distinct (map addr ((t # rest) @ rev D1 @ tmptimers s))"
    by (rule distinct_addr_rotate)
  then have dA: "distinct (map addr (live ?sA))" by (simp add: live_def)
  have tsA: "timers ?sA = t # rest" by simp
  have mv: "t_add_tmp t ?sA = s\<lparr>timers := rest, tmptimers := t # rev D1 @ tmptimers s,
                              called := called s @ map ident D1\<rparr>"
    unfolding t_add_tmp_head [OF tsA dA] by simp
  have l2: "flush_loop cb ?ref ?sA (0 + of_nat (length D1)) =
            flush_loop cb ?ref sC (0 + of_nat (length D1) + 1)"
    using dt by (subst flush_loop.simps) (simp add: due_def mv act)
  let ?sF = "sC\<lparr>timers := R, tmptimers := rev D2 @ tmptimers sC, called := called sC @ map ident D2\<rparr>"
  have l3: "flush_loop cb ?ref sC (0 + of_nat (length D1) + 1) =
            Some (0 + of_nat (length D1) + 1 + of_nat (length D2), ?sF)"
    by (rule flush_loop_quiet_stop [OF tsC dC q2 stop])
  have "distinct (map addr (D2 @ R @ tmptimers sC))"
    using dC tsC by (simp add: live_def)
  then have "distinct (map addr (R @ rev D2 @ tmptimers sC))"
    by (rule distinct_addr_rotate)
  then have dF: "distinct (map addr (live ?sF))" by (simp add: live_def)
  from l1 l2 l3 have "flush_loop cb ?ref s 0 = Some (of_nat (length D1) + 1 + of_nat (length D2), ?sF)"
    by simp
  from libt_flush_result [OF this dF] show ?thesis by simp
qed

lemma t_find_in_tmp:
  assumes u: "unique_ids s" and t: "t \<in> set (live s)"
  shows "t_find (fn t) (dat t) s = Some t"
proof (cases "t_find (fn t) (dat t) s")
  case None
  with t show ?thesis by (auto simp: t_find_None same_id_def)
next
  case (Some u')
  from t_find_Some [OF Some] have "u' \<in> set (live s)" "ident u' = ident t"
    by (simp_all add: same_id_def ident_def)
  with unique_ids_same [OF u t] Some show ?thesis by simp
qed

lemma distinct_map_rotate:
  "distinct (map g (D @ (t # R) @ T)) \<Longrightarrow> distinct (map g (R @ (t # rev D) @ T))"
  by (auto simp: rev_map [symmetric])

lemma flush_self_cancel:
  assumes d: "distinct (map addr (live s))" and u: "unique_ids s"
    and ts: "timers s = D1 @ t # rest"
    and q1: "\<forall>u \<in> set D1. due (flush_ref now) u \<and> (\<forall>st. cb (fn u) (dat u) st = [])"
    and dt: "due (flush_ref now) t"
    and self: "\<forall>st. cb (fn t) (dat t) st = [Remove (fn t) (dat t)]"
    and q2: "\<forall>u \<in> set (takeWhile (due (flush_ref now)) rest). \<forall>st. cb (fn u) (dat u) st = []"
  shows "libt_flush cb now s =
         Some (of_nat (length D1) + 1 + of_nat (length (takeWhile (due (flush_ref now)) rest)),
               s\<lparr>timers := dropWhile (due (flush_ref now)) rest, tmptimers := [],
                  freed := freed s @ [addr t] @
                           map addr (rev (takeWhile (due (flush_ref now)) rest) @ rev D1 @ tmptimers s),
                  called := called s @ map ident D1 @ [ident t] @
                            map ident (takeWhile (due (flush_ref now)) rest)\<rparr>)"
proof -
  let ?ref = "flush_ref now"
  let ?D2 = "takeWhile (due ?ref) rest"
  let ?R = "dropWhile (due ?ref) rest"
  let ?sM = "s\<lparr>timers := rest, tmptimers := t # rev D1 @ tmptimers s,
                called := called s @ map ident D1\<rparr>"
  let ?sB = "s\<lparr>timers := rest, tmptimers := t # rev D1 @ tmptimers s,
               called := called s @ map ident D1 @ [(fn t, dat t)]\<rparr>"
  let ?sC = "s\<lparr>timers := rest, tmptimers := rev D1 @ tmptimers s,
               called := called s @ map ident D1 @ [ident t], freed := freed s @ [addr t]\<rparr>"
  have lB: "live ?sB = rest @ (t # rev D1) @ tmptimers s" by (simp add: live_def)
  have ls: "live s = D1 @ (t # rest) @ tmptimers s" using ts by (simp add: live_def)
  have dB: "distinct (map addr (live ?sB))"
    unfolding lB using d unfolding ls by (rule distinct_map_rotate)
  have uB: "unique_ids ?sB"
    unfolding unique_ids_def lB using u unfolding unique_ids_def ls by (rule distinct_map_rotate)
  have "t \<in> set (live ?sB)" by (simp add: live_def)
  with uB have find: "t_find (fn t) (dat t) ?sB = Some t" by (rule t_find_in_tmp)
  from dB have "addr t \<notin> addr ` set rest" "addr t \<notin> addr ` set (rev D1 @ tmptimers s)"
    unfolding lB by auto
  then have "\<forall>u \<in> set rest. addr u \<noteq> addr t" "\<forall>u \<in> set (rev D1 @ tmptimers s). addr u \<noteq> addr t"
    by (metis imageI)+
  then have "unlink (addr t) rest = rest"
    "unlink (addr t) (t # rev D1 @ tmptimers s) = rev D1 @ tmptimers s"
    by (simp_all add: unlink_head unlink_id)
  then have rem: "libt_remove_timeout (fn t) (dat t) ?sB = ?sC"
    by (simp add: libt_remove_timeout_def find free_def t_del_def ident_def)
  have act: "invoke cb t ?sM = ?sC"
    using self rem by (simp add: invoke_def)
  have tsC: "timers ?sC = ?D2 @ ?R" by simp
  have "distinct (map addr (rest @ rev D1 @ tmptimers s))"
    using dB unfolding lB by auto
  then have dC: "distinct (map addr (live ?sC))" by (simp add: live_def)
  have q2': "\<forall>u \<in> set ?D2. due ?ref u \<and> (\<forall>st. cb (fn u) (dat u) st = [])"
    using q2 by (auto dest: set_takeWhileD)
  from libt_flush_one_active [OF ts d q1 dt act tsC dC q2' takeWhile_stop]
  show ?thesis by simp
qed

lemma add_timeoutx_found:
  assumes "t_find f d s = Some t" "\<not> isnan w" "LIBT_MOD \<in> flags"
  shows "libt_add_timeoutx now w f d flags s =
         (Inr (), t_add_sorted (t\<lparr>wakeup := update_wakeup now w flags (wakeup t)\<rparr>) s)"
  using assms by (simp add: libt_add_timeoutx_def update_wakeup_def Let_def)

lemma t_scan_not_Nil [simp]: "t_scan t R \<noteq> []"
  by (cases R) (simp_all add: t_add_def)

lemma distinct_addr_t_scan:
  "distinct (map addr (t_scan x xs @ ys)) =
     (addr x \<notin> addr ` (set xs \<union> set ys) \<and> distinct (map addr (xs @ ys)))"
  by (induction xs) (auto simp: t_add_def)



section \<open>Records are freed once\<close>

lemma heap_ok_relink:
  assumes h: "heap_ok s" and a: "addr t < b" "brk s \<le> b" "addr t \<notin> set (freed s)"
  shows "heap_ok ((t_add_sorted t s)\<lparr>brk := b\<rparr>)"
proof -
  let ?a = "addr t"
  have live': "live ((t_add_sorted t s)\<lparr>brk := b\<rparr>) =
               t_scan t (unlink ?a (timers s)) @ unlink ?a (tmptimers s)"
    by (simp add: live_t_add_sorted)
  from h have d: "distinct (map addr (live s))" by (simp add: heap_ok_def)
  have du: "distinct (map addr (unlink ?a (timers s) @ unlink ?a (tmptimers s)))"
    unfolding unlink_append using d unfolding live_def unlink_def by (rule distinct_map_filter)
  have "?a \<notin> addr ` (set (unlink ?a (timers s)) \<union> set (unlink ?a (tmptimers s)))"
    by auto
  with du have 1: "distinct (map addr (live ((t_add_sorted t s)\<lparr>brk := b\<rparr>)))"
    unfolding live' by (simp only: distinct_addr_t_scan simp_thms)
  have sub: "set (live ((t_add_sorted t s)\<lparr>brk := b\<rparr>)) \<subseteq> insert t (set (live s))"
    unfolding live' by (auto simp: live_def)
  have 2: "\<forall>u \<in> set (live ((t_add_sorted t s)\<lparr>brk := b\<rparr>)). addr u < b \<and> addr u \<notin> set (freed s)"
  proof
    fix u assume "u \<in> set (live ((t_add_sorted t s)\<lparr>brk := b\<rparr>))"
    with sub have "u = t \<or> u \<in> set (live s)" by blast
    then show "addr u < b \<and> addr u \<notin> set (freed s)"
      using a h by (auto simp: heap_ok_def)
  qed
  have 3: "\<forall>x \<in> set (freed s). x < b" "distinct (freed s)"
    using h a(2) by (auto simp: heap_ok_def)
  from 1 2 3 show ?thesis by (simp add: heap_ok_def)
qed

lemma heap_ok_add_timeoutx:
  assumes h: "heap_ok s"
  shows "heap_ok (snd (libt_add_timeoutx now w f d flags s))"
proof (cases "isnan w")
  case True
  with h show ?thesis by (simp add: libt_add_timeoutx_def)
next
  case False
  show ?thesis
  proof (cases "t_find f d s")
    case None
    let ?t = "\<lparr>addr = brk s, fn = f, dat = d,
               wakeup = (if LIBT_RELATIVE \<in> flags \<or> LIBT_REPEAT \<in> flags
                         then dadd w (Fin now) else w)\<rparr>"
    have "brk s \<notin> set (freed s)" using h by (auto simp: heap_ok_def)
    then have "heap_ok ((t_add_sorted ?t s)\<lparr>brk := Suc (brk s)\<rparr>)"
      by (intro heap_ok_relink h) simp_all
    moreover have "t_add_sorted ?t (s\<lparr>brk := Suc (brk s)\<rparr>) = (t_add_sorted ?t s)\<lparr>brk := Suc (brk s)\<rparr>"
      by (simp add: t_add_sorted_def t_del_def Let_def)
    ultimately show ?thesis
      using None False h by (simp add: libt_add_timeoutx_def Let_def)
  next
    case (Some t)
    then have t: "t \<in> set (live s)" by (simp add: t_find_Some)
    have "heap_ok ((t_add_sorted (t\<lparr>wakeup := w'\<rparr>) s)\<lparr>brk := brk s\<rparr>)" for w'
      using t h by (intro heap_ok_relink h) (auto simp: heap_ok_def)
    moreover have "(t_add_sorted x s)\<lparr>brk := brk s\<rparr> = t_add_sorted x s" for x
      by (simp add: t_add_sorted_def t_del_def Let_def)
    ultimately have "heap_ok (t_add_sorted (t\<lparr>wakeup := w'\<rparr>) s)" for w' by simp
    then show ?thesis
      using Some False h by (simp add: libt_add_timeoutx_def Let_def)
  qed
qed

lemma heap_ok_free:
  assumes h: "heap_ok s" and t: "t \<in> set (live s)"
  shows "heap_ok (free t (t_del t s))"
proof -
  let ?a = "addr t"
  have live': "live (free t (t_del t s)) = unlink ?a (timers s) @ unlink ?a (tmptimers s)"
    by (simp add: live_def free_def t_del_def)
  from h have d: "distinct (map addr (live s))" by (simp add: heap_ok_def)
  have 1: "distinct (map addr (live (free t (t_del t s))))"
    unfolding live' unlink_append using d unfolding live_def unlink_def
    by (rule distinct_map_filter)
  have 2: "\<forall>u \<in> set (live (free t (t_del t s))). u \<in> set (live s) \<and> addr u \<noteq> ?a"
    unfolding live' by (auto simp: live_def)
  from h t have 3: "?a \<notin> set (freed s)" "?a < brk s" by (auto simp: heap_ok_def)
  from 1 2 3 h show ?thesis
    by (auto simp: heap_ok_def free_def t_del_def)
qed

lemma heap_ok_remove_timeout: "heap_ok s \<Longrightarrow> heap_ok (libt_remove_timeout f d s)"
  by (auto simp: libt_remove_timeout_def heap_ok_free split: option.splits dest: t_find_Some)

lemma heap_ok_move:
  assumes h: "heap_ok s" and ts: "timers s = t # ts"
  shows "heap_ok ((t_add_tmp t s)\<lparr>called := called (t_add_tmp t s) @ [x]\<rparr>)"
proof -
  from h have d: "distinct (map addr (live s))" by (simp add: heap_ok_def)
  have mv: "t_add_tmp t s = s\<lparr>timers := ts, tmptimers := t # tmptimers s\<rparr>"
    by (rule t_add_tmp_head [OF ts d])
  have "distinct (map addr ([] @ (t # ts) @ tmptimers s))" using d ts by (simp add: live_def)
  then have "distinct (map addr (ts @ (t # rev []) @ tmptimers s))" by (rule distinct_map_rotate)
  then show ?thesis
    using h ts unfolding mv by (auto simp: heap_ok_def live_def)
qed

lemma heap_ok_api_run:
  assumes "api_run cb cs s = Some s'" "heap_ok s"
  shows "heap_ok s'"
proof (rule api_run_invariant [where I = heap_ok, OF _ _ _ _ assms])
  fix s :: libt and t ts
  assume "heap_ok s" "tmptimers s = t # ts"
  then show "heap_ok (free t (t_del t s))" by (intro heap_ok_free) (simp_all add: live_def)
qed (erule heap_ok_add_timeoutx heap_ok_remove_timeout heap_ok_move, (assumption)?)+

lemma flush_cancel_self_once:
  assumes h: "heap_ok s" and u: "unique_ids s"
    and ts: "timers s = front @ t # rest"
    and q1: "\<forall>u \<in> set front. due (flush_ref now) u \<and> (\<forall>st. cb (fn u) (dat u) st = [])"
    and dt: "due (flush_ref now) t"
    and self: "\<forall>st. cb (fn t) (dat t) st = [Remove (fn t) (dat t)]"
    and q2: "\<forall>u \<in> set (takeWhile (due (flush_ref now)) rest). \<forall>st. cb (fn u) (dat u) st = []"
  shows "\<exists>cnt s'. libt_flush cb now s = Some (cnt, s')
           \<and> called s' = called s @ map ident front @ [(fn t, dat t)] @
                          map ident (takeWhile (due (flush_ref now)) rest)
           \<and> \<not> libt_timeout_exist (fn t) (dat t) s'
           \<and> count_list (freed s') (addr t) = 1
           \<and> tmptimers s' = []"
proof -
  let ?D2 = "takeWhile (due (flush_ref now)) rest"
  let ?R = "dropWhile (due (flush_ref now)) rest"
  let ?s' = "s\<lparr>timers := ?R, tmptimers := [],
               freed := freed s @ [addr t] @ map addr (rev ?D2 @ rev front @ tmptimers s),
               called := called s @ map ident front @ [ident t] @ map ident ?D2\<rparr>"
  from h have d: "distinct (map addr (live s))" by (simp add: heap_ok_def)
  have run: "libt_flush cb now s = Some (of_nat (length front) + 1 + of_nat (length ?D2), ?s')"
    by (rule flush_self_cancel [OF d u ts q1 dt self q2])
  have t: "t \<in> set (live s)" using ts by (simp add: live_def)
  have "\<not> same_id (fn t) (dat t) x" if "x \<in> set ?R" for x
  proof
    assume "same_id (fn t) (dat t) x"
    then have "ident x = ident t" by (simp add: same_id_def ident_def)
    moreover from that have "x \<in> set rest" by (rule set_dropWhileD)
    then have x: "x \<in> set (live s)" using ts by (simp add: live_def)
    ultimately have "x = t" using unique_ids_same [OF u t] by simp
    moreover from d ts have "addr t \<notin> addr ` set rest" by (auto simp: live_def)
    ultimately show False using \<open>x \<in> set rest\<close> by (metis imageI)
  qed
  then have gone: "\<not> libt_timeout_exist (fn t) (dat t) ?s'"
    by (simp add: libt_timeout_exist_def t_find_None live_def)
  from h t have "addr t \<notin> set (freed s)" by (simp add: heap_ok_def)
  moreover from d ts have "addr t \<notin> addr ` set (rev ?D2 @ rev front @ tmptimers s)"
    by (auto simp: live_def dest: set_takeWhileD)
  ultimately have once: "count_list (freed ?s') (addr t) = 1"
    by (simp add: count_list_0_iff image_Un)
  from run gone once show ?thesis by (simp add: ident_def)
qed


lemma freed_add_timeoutx [simp]: "freed (snd (libt_add_timeoutx now w f d flags s)) = freed s"
  by (simp add: libt_add_timeoutx_def Let_def split: option.splits)

lemma called_add_timeoutx [simp]: "called (snd (libt_add_timeoutx now w f d flags s)) = called s"
  by (simp add: libt_add_timeoutx_def Let_def split: option.splits)

lemma called_remove_timeout [simp]: "called (libt_remove_timeout f d s) = called s"
  by (simp add: libt_remove_timeout_def free_def t_del_def split: option.splits)

lemma freed_remove_timeout: "set (freed s) \<subseteq> set (freed (libt_remove_timeout f d s))"
  by (auto simp: libt_remove_timeout_def free_def t_del_def split: option.splits)

lemma heap_ok_addr_inj:
  "heap_ok s \<Longrightarrow> u \<in> set (live s) \<Longrightarrow> v \<in> set (live s) \<Longrightarrow> addr u = addr v \<Longrightarrow> u = v"
  unfolding heap_ok_def by (meson distinct_map inj_on_eq_iff)

lemma tracked_add_timeoutx:
  assumes tr: "tracked t s" and other: "other_id (fn t) (dat t) now w f d flags"
  shows "tracked t (snd (libt_add_timeoutx now w f d flags s))"
proof -
  let ?s' = "snd (libt_add_timeoutx now w f d flags s)"
  from tr have h: "heap_ok s" and u: "unique_ids s" by (simp_all add: tracked_def)
  have h': "heap_ok ?s'" using h by (rule heap_ok_add_timeoutx)
  have u': "unique_ids ?s'" using u by (rule unique_ids_add_timeoutx)
  have "t \<in> set (live ?s')" if t: "t \<in> set (live s)"
  proof (cases "isnan w")
    case True
    with t show ?thesis by (simp add: libt_add_timeoutx_def)
  next
    case False
    show ?thesis
    proof (cases "t_find f d s")
      case None
      from h t have "addr t \<noteq> brk s" by (auto simp: heap_ok_def)
      with t None False show ?thesis
        by (auto simp: libt_add_timeoutx_def Let_def set_live_t_add_sorted)
    next
      case (Some v)
      from t_find_Some [OF Some] have v: "v \<in> set (live s)" "fn v = f" "dat v = d"
        by (simp_all add: same_id_def)
      with other have "v \<noteq> t" by (auto simp: other_id_def)
      with heap_ok_addr_inj [OF h t v(1)] have "addr t \<noteq> addr v" by auto
      with t Some False show ?thesis
        by (auto simp: libt_add_timeoutx_def Let_def set_live_t_add_sorted)
    qed
  qed
  moreover have "\<forall>u \<in> set (live ?s'). same_id (fn t) (dat t) u \<longrightarrow> u = t"
  proof (cases "isnan w")
    case True
    with tr show ?thesis by (simp add: libt_add_timeoutx_def tracked_def)
  next
    case False
    show ?thesis
    proof (cases "t_find f d s")
      case None
      with tr False other show ?thesis
        by (auto simp: libt_add_timeoutx_def Let_def set_live_t_add_sorted tracked_def
            same_id_def other_id_def)
    next
      case (Some v)
      from t_find_Some [OF Some] have "fn v = f" "dat v = d" by (simp_all add: same_id_def)
      with tr False other Some show ?thesis
        by (auto simp: libt_add_timeoutx_def Let_def set_live_t_add_sorted tracked_def
            same_id_def other_id_def)
    qed
  qed
  ultimately show ?thesis using tr h' u' by (auto simp: tracked_def)
qed

lemma tracked_free:
  assumes tr: "tracked t s" and v: "v \<in> set (live s)"
  shows "tracked t (free v (t_del v s))"
proof -
  from tr have h: "heap_ok s" and u: "unique_ids s" by (simp_all add: tracked_def)
  have h': "heap_ok (free v (t_del v s))" using h v by (rule heap_ok_free)
  have u': "unique_ids (free v (t_del v s))" using u by (rule unique_ids_free)
  have "t \<in> set (live (free v (t_del v s))) \<or> addr t \<in> set (freed (free v (t_del v s)))"
  proof (cases "addr t \<in> set (freed s)")
    case True
    then show ?thesis by (simp add: free_def t_del_def)
  next
    case False
    with tr have t: "t \<in> set (live s)" by (simp add: tracked_def)
    show ?thesis
    proof (cases "addr v = addr t")
      case True
      then show ?thesis by (simp add: free_def t_del_def)
    next
      case False
      with t show ?thesis by (auto simp: live_def free_def t_del_def)
    qed
  qed
  moreover have "set (live (free v (t_del v s))) \<subseteq> set (live s)" by (rule set_live_free)
  with tr have "\<forall>u \<in> set (live (free v (t_del v s))). same_id (fn t) (dat t) u \<longrightarrow> u = t"
    by (auto simp: tracked_def)
  ultimately show ?thesis using h' u' by (simp add: tracked_def)
qed

lemma tracked_remove_timeout: "tracked t s \<Longrightarrow> tracked t (libt_remove_timeout f d s)"
  by (auto simp: libt_remove_timeout_def tracked_free split: option.splits dest: t_find_Some)

lemma tracked_move:
  assumes tr: "tracked t s" and ts: "timers s = v # vs"
  shows "tracked t ((t_add_tmp v s)\<lparr>called := called (t_add_tmp v s) @ [x]\<rparr>)"
proof -
  from tr have h: "heap_ok s" and u: "unique_ids s" by (simp_all add: tracked_def)
  from h have d: "distinct (map addr (live s))" by (simp add: heap_ok_def)
  have mv: "t_add_tmp v s = s\<lparr>timers := vs, tmptimers := v # tmptimers s\<rparr>"
    by (rule t_add_tmp_head [OF ts d])
  have "set (live ((t_add_tmp v s)\<lparr>called := called (t_add_tmp v s) @ [x]\<rparr>)) = set (live s)"
    unfolding mv using ts by (auto simp: live_def)
  moreover have "freed ((t_add_tmp v s)\<lparr>called := called (t_add_tmp v s) @ [x]\<rparr>) = freed s"
    unfolding mv by simp
  ultimately show ?thesis
    using tr heap_ok_move [OF h ts, of x] unique_ids_move [OF u ts, of x]
    by (simp add: tracked_def)
qed

lemma self_cancel_frees:
  assumes tr: "tracked t s"
  shows "addr t \<in> set (freed (libt_remove_timeout (fn t) (dat t) s))"
proof (cases "addr t \<in> set (freed s)")
  case True
  then show ?thesis using freed_remove_timeout by blast
next
  case False
  with tr have t: "t \<in> set (live s)" and u: "unique_ids s" by (simp_all add: tracked_def)
  then have "t_find (fn t) (dat t) s = Some t" by (intro t_find_in_tmp)
  then show ?thesis by (simp add: libt_remove_timeout_def free_def t_del_def)
qed


lemma freed_run_call: "set (freed s) \<subseteq> set (freed (run_call c s))"
  using freed_remove_timeout by (cases c) auto

lemma freed_run_calls: "set (freed s) \<subseteq> set (freed (run_calls cs s))"
proof (induction cs arbitrary: s)
  case Nil
  then show ?case by simp
next
  case (Cons c cs)
  from freed_run_call [of s c] Cons [of "run_call c s"] show ?case by simp
qed

lemma called_run_calls [simp]: "called (run_calls cs s) = called s"
proof (induction cs arbitrary: s)
  case Nil
  then show ?case by simp
next
  case (Cons c cs)
  have "called (run_call c s) = called s" by (cases c) simp_all
  with Cons show ?case by simp
qed

lemma tracked_run_call:
  "tracked t s \<Longrightarrow> call_ok (other_id (fn t) (dat t)) c \<Longrightarrow> tracked t (run_call c s)"
  by (cases c) (simp_all add: tracked_add_timeoutx tracked_remove_timeout)

lemma tracked_run_calls:
  "tracked t s \<Longrightarrow> \<forall>c \<in> set cs. call_ok (other_id (fn t) (dat t)) c \<Longrightarrow> tracked t (run_calls cs s)"
  by (induction cs arbitrary: s) (simp_all add: tracked_run_call)

lemma run_calls_self_cancel:
  assumes "tracked t s" "\<forall>c \<in> set cs. call_ok (other_id (fn t) (dat t)) c"
    "Remove (fn t) (dat t) \<in> set cs"
  shows "addr t \<in> set (freed (run_calls cs s))"
  using assms
proof (induction cs arbitrary: s)
  case Nil
  then show ?case by simp
next
  case (Cons c cs)
  have tr: "tracked t (run_call c s)" using Cons.prems(1,2) by (simp add: tracked_run_call)
  show ?case
  proof (cases "c = Remove (fn t) (dat t)")
    case True
    then have "addr t \<in> set (freed (run_call c s))"
      using self_cancel_frees [OF Cons.prems(1)] by simp
    with freed_run_calls [of "run_call c s" cs] show ?thesis by auto
  next
    case False
    with Cons.prems(3) have "Remove (fn t) (dat t) \<in> set cs" by simp
    with Cons.IH [OF tr] Cons.prems(2) show ?thesis by simp
  qed
qed

lemma flush_loop_tracked:
  assumes self: "\<forall>st. Remove (fn t) (dat t) \<in> set (cb (fn t) (dat t) st)"
    and nore: "\<forall>f d st. \<forall>c \<in> set (cb f d st). call_ok (other_id (fn t) (dat t)) c"
    and run: "flush_loop cb ref s cnt = Some r"
    and tr: "tracked t s"
  shows "tracked t (snd r) \<and> set (freed s) \<subseteq> set (freed (snd r))
         \<and> (\<exists>ext. called (snd r) = called s @ ext
               \<and> ((fn t, dat t) \<in> set ext \<longrightarrow> addr t \<in> set (freed (snd r))))"
proof -
  let ?P = "\<lambda>c (n :: double) st (k :: 32 word) y. c = cb \<longrightarrow> tracked t st \<longrightarrow>
         (tracked t (snd y) \<and> set (freed st) \<subseteq> set (freed (snd y))
         \<and> (\<exists>ext. called (snd y) = called st @ ext
               \<and> ((fn t, dat t) \<in> set ext \<longrightarrow> addr t \<in> set (freed (snd y)))))"
  have "?P cb ref s cnt r"
  proof (rule flush_loop.raw_induct [where P = ?P, OF _ run])
    fix loop c n st k y
    assume IH: "\<And>c n st k y. loop c n st k = Some y \<Longrightarrow> ?P c n st k y"
      and body: "(case timers st of
                    [] \<Rightarrow> Some (k, st)
                  | v # x \<Rightarrow> if dgt (wakeup v) n then Some (k, st)
                             else loop c n (invoke c v (t_add_tmp v st)) (k + 1)) = Some y"
    show "?P c n st k y"
    proof (intro impI)
      assume c: "c = cb" and trs: "tracked t st"
      have stop: ?thesis if "y = (k, st)"
        using that trs by simp
      show "tracked t (snd y) \<and> set (freed st) \<subseteq> set (freed (snd y))
         \<and> (\<exists>ext. called (snd y) = called st @ ext
               \<and> ((fn t, dat t) \<in> set ext \<longrightarrow> addr t \<in> set (freed (snd y))))"
      proof (cases "timers st")
        case Nil
        with body have "y = (k, st)" by simp
        with trs show ?thesis by simp
      next
        case (Cons v vs)
        show ?thesis
        proof (cases "dgt (wakeup v) n")
          case True
          with body Cons have "y = (k, st)" by simp
          with trs show ?thesis by simp
        next
          case False
          let ?m = "(t_add_tmp v st)\<lparr>called := called (t_add_tmp v st) @ [(fn v, dat v)]\<rparr>"
          let ?ops = "cb (fn v) (dat v) (t_add_tmp v st)"
          let ?st1 = "invoke cb v (t_add_tmp v st)"
          have st1: "?st1 = run_calls ?ops ?m" by (simp add: invoke_def)
          from body Cons False c
          have next_run: "loop cb n ?st1 (k + 1) = Some y" by simp
          have trm: "tracked t ?m" using trs Cons by (rule tracked_move)
          have ok: "\<forall>c \<in> set ?ops. call_ok (other_id (fn t) (dat t)) c" using nore by simp
          have tr1: "tracked t ?st1" unfolding st1 using trm ok by (rule tracked_run_calls)
          from trs have d: "distinct (map addr (live st))" by (simp add: tracked_def heap_ok_def)
          have fm: "freed ?m = freed st" "called ?m = called st @ [(fn v, dat v)]"
            by (simp_all add: t_add_tmp_head [OF Cons d])
          have f1: "set (freed st) \<subseteq> set (freed ?st1)"
            unfolding st1 using freed_run_calls [of ?m ?ops] fm by simp
          have c1: "called ?st1 = called st @ [(fn v, dat v)]"
            unfolding st1 using fm by simp
          from IH [OF next_run] tr1 obtain ext where
            y: "tracked t (snd y)" "set (freed ?st1) \<subseteq> set (freed (snd y))"
            "called (snd y) = called ?st1 @ ext"
            "(fn t, dat t) \<in> set ext \<longrightarrow> addr t \<in> set (freed (snd y))"
            by blast
          have "addr t \<in> set (freed (snd y))" if "(fn t, dat t) \<in> set ((fn v, dat v) # ext)"
          proof (cases "(fn v, dat v) = (fn t, dat t)")
            case True
            then have "Remove (fn t) (dat t) \<in> set ?ops" using self by simp
            with trm ok have "addr t \<in> set (freed (run_calls ?ops ?m))"
              by (intro run_calls_self_cancel)
            with y(2) show ?thesis unfolding st1 by blast
          next
            case False
            with that y(4) show ?thesis by auto
          qed
          moreover have "called (snd y) = called st @ ((fn v, dat v) # ext)"
            using y(3) c1 by simp
          ultimately show ?thesis using y(1,2) f1 by blast
        qed
      qed
    qed
  qed
  with tr show ?thesis by simp
qed


lemma flush_cleanup_tracked:
  "tracked t s \<Longrightarrow>
   tracked t (flush_cleanup s) \<and> set (freed s) \<subseteq> set (freed (flush_cleanup s))
   \<and> called (flush_cleanup s) = called s \<and> tmptimers (flush_cleanup s) = []"
proof (induction s rule: flush_cleanup.induct)
  case (1 s)
  show ?case
  proof (cases "tmptimers s")
    case Nil
    with 1(2) show ?thesis by (subst (1 2 3 4) flush_cleanup.simps) simp
  next
    case (Cons v vs)
    let ?s1 = "free v (t_del v s)"
    have "v \<in> set (live s)" using Cons by (simp add: live_def)
    with 1(2) have "tracked t ?s1" by (rule tracked_free)
    from 1(1) [OF Cons this]
    have "tracked t (flush_cleanup ?s1) \<and> set (freed ?s1) \<subseteq> set (freed (flush_cleanup ?s1))
          \<and> called (flush_cleanup ?s1) = called ?s1 \<and> tmptimers (flush_cleanup ?s1) = []" .
    moreover have "set (freed s) \<subseteq> set (freed ?s1)" "called ?s1 = called s"
      by (auto simp: free_def t_del_def)
    moreover have "flush_cleanup s = flush_cleanup ?s1"
      using Cons by (subst flush_cleanup.simps) simp
    ultimately show ?thesis by auto
  qed
qed

lemma count_list_distinct: "distinct xs \<Longrightarrow> x \<in> set xs \<Longrightarrow> count_list xs x = 1"
  by (induction xs) (auto simp: count_list_0_iff)

lemma libt_flush_cancel_self:
  assumes h: "heap_ok s" and u: "unique_ids s" and t: "t \<in> set (live s)"
    and self: "\<forall>st. Remove (fn t) (dat t) \<in> set (cb (fn t) (dat t) st)"
    and nore: "\<forall>f d st. \<forall>c \<in> set (cb f d st). call_ok (other_id (fn t) (dat t)) c"
    and run: "libt_flush cb now s = Some (cnt, s')"
    and inv: "(fn t, dat t) \<in> set (drop (length (called s)) (called s'))"
  shows "\<not> libt_timeout_exist (fn t) (dat t) s' \<and> count_list (freed s') (addr t) = 1
         \<and> tmptimers s' = []"
proof -
  from run obtain s1 where
    loop: "flush_loop cb (flush_ref now) s 0 = Some (cnt, s1)"
    and s': "s' = flush_cleanup s1"
    by (auto simp: libt_flush_def split: option.splits)
  have "\<forall>v \<in> set (live s). same_id (fn t) (dat t) v \<longrightarrow> v = t"
    using unique_ids_same [OF u t] by (auto simp: same_id_def ident_def)
  with h u t have tr: "tracked t s" by (simp add: tracked_def)
  from flush_loop_tracked [OF self nore loop tr] obtain ext where
    l: "tracked t s1" "called s1 = called s @ ext"
    "(fn t, dat t) \<in> set ext \<longrightarrow> addr t \<in> set (freed s1)"
    by auto
  from flush_cleanup_tracked [OF l(1)]
  have c: "tracked t s'" "set (freed s1) \<subseteq> set (freed s')" "called s' = called s1"
    "tmptimers s' = []"
    by (simp_all add: s')
  from inv c(3) l(2) have "(fn t, dat t) \<in> set ext" by simp
  with l(3) c(2) have freed: "addr t \<in> set (freed s')" by blast
  from c(1) have h': "heap_ok s'" and only: "\<forall>v \<in> set (live s'). same_id (fn t) (dat t) v \<longrightarrow> v = t"
    by (simp_all add: tracked_def)
  from h' freed have "t \<notin> set (live s')" by (auto simp: heap_ok_def)
  with only have "\<forall>v \<in> set (live s'). \<not> same_id (fn t) (dat t) v" by blast
  then have "\<not> libt_timeout_exist (fn t) (dat t) s'"
    by (simp add: libt_timeout_exist_def t_find_None)
  moreover from h' freed have "count_list (freed s') (addr t) = 1"
    by (intro count_list_distinct) (simp_all add: heap_ok_def)
  ultimately show ?thesis using c(4) by simp
qed

text \<open>
  C6: take a state where the records of the lists are distinct blocks that have not
  been freed, no block has been freed twice and identities are unique, and a timer whose
  callback cancels its own identity, while no callback schedules that identity. If
  \<open>libt_flush\<close> returns and has invoked that callback, then no timer of that identity
  exists afterwards, and the address of the record occurs exactly once among the
  addresses freed: the cancel inside the callback frees it, the sweep of \<open>tmptimers\<close>
  does not. Whatever the callbacks do, no sequence of calls frees a block twice or
  leaves a freed block on a list. When the timer is due and the other callbacks invoked
  in the pass leave the queue alone, \<open>libt_flush\<close> does return and does invoke the
  callback.
\<close>

theorem cancel_self_during_flush:
  "heap_ok libt_init
   \<and> (heap_ok s \<longrightarrow> api_run cb cs s = Some sz \<longrightarrow> heap_ok sz \<and> distinct (freed sz))
   \<and> (heap_ok s \<longrightarrow> unique_ids s \<longrightarrow> t \<in> set (timers s @ tmptimers s) \<longrightarrow>
       (\<forall>st. Remove (fn t) (dat t) \<in> set (cb (fn t) (dat t) st)) \<longrightarrow>
       (\<forall>f d st. \<forall>c \<in> set (cb f d st). call_ok (other_id (fn t) (dat t)) c) \<longrightarrow>
       libt_flush cb now s = Some (cnt, sfin) \<longrightarrow>
       (fn t, dat t) \<in> set (drop (length (called s)) (called sfin)) \<longrightarrow>
       \<not> libt_timeout_exist (fn t) (dat t) sfin \<and> count_list (freed sfin) (addr t) = 1
       \<and> tmptimers sfin = [])
   \<and> (heap_ok s \<longrightarrow> unique_ids s \<longrightarrow> timers s = front @ t # rest \<longrightarrow>
       (\<forall>u \<in> set front. due (flush_ref now) u \<and> (\<forall>st. cb (fn u) (dat u) st = [])) \<longrightarrow>
       due (flush_ref now) t \<longrightarrow>
       (\<forall>st. cb (fn t) (dat t) st = [Remove (fn t) (dat t)]) \<longrightarrow>
       (\<forall>u \<in> set (takeWhile (due (flush_ref now)) rest). \<forall>st. cb (fn u) (dat u) st = []) \<longrightarrow>
       (\<exists>cnt s'. libt_flush cb now s = Some (cnt, s')
           \<and> called s' = called s @ map ident front @ [(fn t, dat t)] @
                          map ident (takeWhile (due (flush_ref now)) rest)
           \<and> \<not> libt_timeout_exist (fn t) (dat t) s'
           \<and> count_list (freed s') (addr t) = 1
           \<and> tmptimers s' = []))"
proof (intro conjI impI)
  show "heap_ok libt_init" by (simp add: heap_ok_def live_def libt_init_def)
next
  assume "heap_ok s" "api_run cb cs s = Some sz"
  then show h1: "heap_ok sz" by (rule heap_ok_api_run [rotated])
  then show "distinct (freed sz)" by (simp add: heap_ok_def)
next
  assume a: "heap_ok s" "unique_ids s" "t \<in> set (timers s @ tmptimers s)"
    "\<forall>st. Remove (fn t) (dat t) \<in> set (cb (fn t) (dat t) st)"
    "\<forall>f d st. \<forall>c \<in> set (cb f d st). call_ok (other_id (fn t) (dat t)) c"
    "libt_flush cb now s = Some (cnt, sfin)"
    "(fn t, dat t) \<in> set (drop (length (called s)) (called sfin))"
  from a(3) have "t \<in> set (live s)" by (simp add: live_def)
  from libt_flush_cancel_self [OF a(1,2) this a(4,5,6,7)]
  show "\<not> libt_timeout_exist (fn t) (dat t) sfin" "count_list (freed sfin) (addr t) = 1"
    "tmptimers sfin = []"
    by simp_all
next
  assume "heap_ok s" "unique_ids s" "timers s = front @ t # rest"
    "\<forall>u \<in> set front. due (flush_ref now) u \<and> (\<forall>st. cb (fn u) (dat u) st = [])"
    "due (flush_ref now) t"
    "\<forall>st. cb (fn t) (dat t) st = [Remove (fn t) (dat t)]"
    "\<forall>u \<in> set (takeWhile (due (flush_ref now)) rest). \<forall>st. cb (fn u) (dat u) st = []"
  then show "\<exists>cnt s'. libt_flush cb now s = Some (cnt, s')
           \<and> called s' = called s @ map ident front @ [(fn t, dat t)] @
                          map ident (takeWhile (due (flush_ref now)) rest)
           \<and> \<not> libt_timeout_exist (fn t) (dat t) s'
           \<and> count_list (freed s') (addr t) = 1
           \<and> tmptimers s' = []"
    by (rule flush_cancel_self_once)
qed

theorem cancel_self_during_flush_witness:
  "libt_flush (\<lambda>f d st. if f = 1 then [Remove 1 0] else []) 2
     \<lparr>timers = [\<lparr>addr = 0, fn = 1, dat = 0, wakeup = Fin 1\<rparr>,
                \<lparr>addr = 1, fn = 2, dat = 0, wakeup = Fin 5\<rparr>],
      tmptimers = [], brk = 2, freed = [], called = []\<rparr>
   = Some (1, \<lparr>timers = [\<lparr>addr = 1, fn = 2, dat = 0, wakeup = Fin 5\<rparr>],
               tmptimers = [], brk = 2, freed = [0], called = [(1, 0)]\<rparr>)
   \<and> \<not> libt_timeout_exist 1 0
        \<lparr>timers = [\<lparr>addr = 1, fn = 2, dat = 0, wakeup = Fin 5\<rparr>],
         tmptimers = [], brk = 2, freed = [0], called = [(1, 0)]\<rparr>
   \<and> count_list [0 :: nat] 0 = 1
   \<and> api_run (\<lambda>f d st. if f = 1 then [Remove 1 0] else [])
        [Schedule 0 (Fin 1) 1 0 {LIBT_ADD}, Schedule 0 (Fin 5) 2 0 {LIBT_ADD}, Flush 2] libt_init
       = Some \<lparr>timers = [\<lparr>addr = 1, fn = 2, dat = 0, wakeup = Fin 5\<rparr>],
               tmptimers = [], brk = 2, freed = [0], called = [(1, 0)]\<rparr>"
proof -
  let ?cb = "\<lambda>f d (st :: libt). if f = 1 then [Remove 1 0] else []"
  let ?t = "\<lparr>addr = 0, fn = 1, dat = 0, wakeup = Fin 1\<rparr>"
  let ?u = "\<lparr>addr = 1, fn = 2, dat = 0, wakeup = Fin 5\<rparr>"
  let ?s = "\<lparr>timers = [?t, ?u], tmptimers = [], brk = 2, freed = [], called = []\<rparr>"
  let ?sfin = "\<lparr>timers = [?u], tmptimers = [], brk = 2, freed = [0], called = [(1, 0)]\<rparr>"
  let ?cs = "[Schedule 0 (Fin 1) 1 0 {LIBT_ADD}, Schedule 0 (Fin 5) 2 0 {LIBT_ADD}, Flush 2]"
  note inst = cancel_self_during_flush [where s = ?s and cb = ?cb and front = "[]" and t = ?t
      and rest = "[?u]" and now = 2 and cs = "[Flush 2]" and sz = ?sfin and cnt = 1
      and sfin = ?sfin]
  have pre: "heap_ok ?s" "unique_ids ?s" "timers ?s = [] @ ?t # [?u]"
    "\<forall>u \<in> set []. due (flush_ref 2) u \<and> (\<forall>st. ?cb (fn u) (dat u) st = [])"
    "due (flush_ref 2) ?t"
    "\<forall>st. ?cb (fn ?t) (dat ?t) st = [Remove (fn ?t) (dat ?t)]"
    "\<forall>u \<in> set (takeWhile (due (flush_ref 2)) [?u]). \<forall>st. ?cb (fn u) (dat u) st = []"
    by (simp_all add: heap_ok_def unique_ids_def live_def ident_def due_def flush_ref_at_2 dgt_def)
  from inst pre obtain cnt s' where r: "libt_flush ?cb 2 ?s = Some (cnt, s')"
    "\<not> libt_timeout_exist (fn ?t) (dat ?t) s'" "count_list (freed s') (addr ?t) = 1"
    by blast
  have e: "libt_flush ?cb 2 ?s = Some (1, ?sfin)" by (simp add: run_defs flush_ref_at_2)
  with r have "s' = ?sfin" by simp
  with r have "\<not> libt_timeout_exist 1 0 ?sfin" "count_list [0 :: nat] 0 = 1" by simp_all
  moreover have "api_run ?cb ?cs libt_init = Some ?sfin" by (simp add: run_defs flush_ref_at_2)
  ultimately show ?thesis using e by (intro conjI)
qed
section \<open>A pass of libt_flush with arbitrary callbacks\<close>

lemma heap_ok_called [simp]: "heap_ok (s\<lparr>called := c\<rparr>) = heap_ok s"
  by (simp add: heap_ok_def live_def)

lemma unique_ids_called [simp]: "unique_ids (s\<lparr>called := c\<rparr>) = unique_ids s"
  by (simp add: unique_ids_def live_def)

lemma called_invoke [simp]: "called (invoke cb t s) = called s @ [(fn t, dat t)]"
  by (simp add: invoke_def)

lemma heap_ok_run_calls: "heap_ok s \<Longrightarrow> heap_ok (run_calls cs s)"
proof (rule run_calls_invariant [where I = heap_ok and A = "\<lambda>_ _ _ _ _. True"])
  show "\<forall>c \<in> set cs. call_ok (\<lambda>_ _ _ _ _. True) c" by (simp add: call_ok_True)
qed (rule heap_ok_add_timeoutx, assumption, rule heap_ok_remove_timeout, assumption+)

lemma unique_ids_run_calls: "unique_ids s \<Longrightarrow> unique_ids (run_calls cs s)"
proof (rule run_calls_invariant [where I = unique_ids and A = "\<lambda>_ _ _ _ _. True"])
  show "\<forall>c \<in> set cs. call_ok (\<lambda>_ _ _ _ _. True) c" by (simp add: call_ok_True)
qed (rule unique_ids_add_timeoutx, assumption, rule unique_ids_remove_timeout, assumption+)

lemma heap_ok_invoke: "heap_ok s \<Longrightarrow> heap_ok (invoke cb t s)"
  by (simp add: invoke_def heap_ok_run_calls)

lemma unique_ids_invoke: "unique_ids s \<Longrightarrow> unique_ids (invoke cb t s)"
  by (simp add: invoke_def unique_ids_run_calls)

lemma heap_ok_t_add_tmp: "heap_ok s \<Longrightarrow> timers s = t # ts \<Longrightarrow> heap_ok (t_add_tmp t s)"
  using heap_ok_move [of s t ts] by simp

lemma unique_ids_t_add_tmp: "unique_ids s \<Longrightarrow> timers s = t # ts \<Longrightarrow> unique_ids (t_add_tmp t s)"
  using unique_ids_move [of s t ts] by simp

lemma takeWhile_eq_Cons:
  "takeWhile P xs = y # ys \<Longrightarrow> \<exists>zs. xs = y # zs \<and> P y \<and> takeWhile P zs = ys"
  by (cases xs) (auto split: if_splits)

lemma flush_cleanup_called:
  "called (flush_cleanup s) = called s \<and> tmptimers (flush_cleanup s) = []"
proof (induction s rule: flush_cleanup.induct)
  case (1 s)
  show ?case
  proof (cases "tmptimers s")
    case Nil
    then show ?thesis by (subst (1 2) flush_cleanup.simps) simp
  next
    case (Cons t ts)
    with 1 [OF Cons] show ?thesis
      by (subst (1 2) flush_cleanup.simps) (simp add: free_def t_del_def)
  qed
qed

lemma sint_of_nat_small: "n < 2 ^ 31 \<Longrightarrow> sint (word_of_nat n :: 32 word) = int n"
  by (simp add: sint_uint signed_take_bit_int_eq_self unsigned_of_nat take_bit_nat_eq_self)

text \<open>The counter counts the invocations, and the loop ends with no due timer at the head.\<close>

lemma flush_loop_count:
  assumes run: "flush_loop cb ref s k = Some r"
  shows "\<exists>ext. called (snd r) = called s @ ext \<and> fst r = k + of_nat (length ext)
           \<and> due_front ref (snd r) = []"
proof -
  let ?P = "\<lambda>(c :: callbacks) n st (k :: 32 word) y.
      \<exists>ext. called (snd y) = called st @ ext \<and> fst y = k + of_nat (length ext)
        \<and> due_front n (snd y) = []"
  show ?thesis
  proof (rule flush_loop.raw_induct [where P = ?P, OF _ run])
    fix loop c n st k y
    assume IH: "\<And>c n st k y. loop c n st k = Some y \<Longrightarrow> ?P c n st k y"
      and body: "(case timers st of
                    [] \<Rightarrow> Some (k, st)
                  | t # x \<Rightarrow> if dgt (wakeup t) n then Some (k, st)
                             else loop c n (invoke c t (t_add_tmp t st)) (k + 1)) = Some y"
    show "?P c n st k y"
    proof (cases "timers st")
      case Nil
      with body have "y = (k, st)" by simp
      with Nil show ?thesis by (simp add: due_front_def)
    next
      case (Cons t ts)
      show ?thesis
      proof (cases "dgt (wakeup t) n")
        case True
        with body Cons have "y = (k, st)" by simp
        with Cons True show ?thesis by (simp add: due_front_def due_def)
      next
        case False
        with body Cons
        have "loop c n (invoke c t (t_add_tmp t st)) (k + 1) = Some y" by simp
        from IH [OF this] obtain ext where
          e: "called (snd y) = called (invoke c t (t_add_tmp t st)) @ ext"
            "fst y = k + 1 + of_nat (length ext)" "due_front n (snd y) = []"
          by blast
        have "called (t_add_tmp t st) = called st"
          by (simp add: t_add_tmp_def t_del_def Let_def)
        with e have "called (snd y) = called st @ ((fn t, dat t) # ext)"
          "fst y = k + of_nat (length ((fn t, dat t) # ext))"
          by simp_all
        with e(3) show ?thesis by blast
      qed
    qed
  qed
qed

lemma libt_flush_count:
  assumes run: "libt_flush cb now s = Some (cnt, s')"
  shows "\<exists>ext. called s' = called s @ ext \<and> cnt = of_nat (length ext)
           \<and> (length ext < 2 ^ 31 \<longrightarrow> sint cnt = int (length ext))"
    and "tmptimers s' = []"
    and "heap_ok s \<Longrightarrow> due_front (flush_ref now) s' = []"
proof -
  from run obtain s1 where
    loop: "flush_loop cb (flush_ref now) s 0 = Some (cnt, s1)" and s': "s' = flush_cleanup s1"
    by (auto simp: libt_flush_def split: option.splits)
  from flush_loop_count [OF loop] obtain ext where
    e: "called s1 = called s @ ext" "cnt = of_nat (length ext)"
      "due_front (flush_ref now) s1 = []"
    by auto
  have "sint cnt = int (length ext)" if "length ext < 2 ^ 31"
  proof -
    have "sint (word_of_nat (length ext) :: 32 word) = int (length ext)"
      using that by (rule sint_of_nat_small)
    with e(2) show ?thesis by simp
  qed
  with e s' show "\<exists>ext. called s' = called s @ ext \<and> cnt = of_nat (length ext)
           \<and> (length ext < 2 ^ 31 \<longrightarrow> sint cnt = int (length ext))"
    by (auto simp: flush_cleanup_called)
  show "tmptimers s' = []" by (simp add: s' flush_cleanup_called)
  assume "heap_ok s"
  have "heap_ok (snd (cnt, s1))"
  proof (rule flush_loop_invariant [where I = heap_ok, OF _ loop \<open>heap_ok s\<close>])
    fix s t ts
    assume "heap_ok s" "timers s = t # ts"
    then show "heap_ok (invoke cb t (t_add_tmp t s))"
      by (simp add: heap_ok_invoke heap_ok_t_add_tmp)
  qed
  then have "distinct (map addr (live s1))" by (simp add: heap_ok_def)
  from flush_cleanup_all [OF this] have "timers s' = timers s1" by (simp add: s')
  with e(3) show "due_front (flush_ref now) s' = []" by (simp add: due_front_def)
qed

text \<open>Callbacks that keep the due front: the loop takes the due front of its start.\<close>

lemma flush_loop_front:
  assumes kf: "keeps_front cb ref D"
  shows "D = pre @ post \<Longrightarrow> heap_ok st \<Longrightarrow> unique_ids st \<Longrightarrow> due_front ref st = post \<Longrightarrow>
         \<exists>y. flush_loop cb ref st k = Some (k + of_nat (length post), y)
              \<and> called y = called st @ map ident post \<and> due_front ref y = []
              \<and> heap_ok y \<and> unique_ids y"
proof (induction post arbitrary: pre st k)
  case Nil
  then have "timers st = [] \<or> \<not> due ref (hd (timers st))"
    by (cases "timers st") (auto simp: due_front_def split: if_splits)
  from flush_loop_stop [OF this] Nil show ?case by simp
next
  case (Cons t post)
  from Cons.prems(4) obtain ts where
    ts: "timers st = t # ts" and dt: "due ref t" and rest: "takeWhile (due ref) ts = post"
    unfolding due_front_def by (blast dest: takeWhile_eq_Cons)
  let ?s1 = "t_add_tmp t st"
  let ?s2 = "invoke cb t ?s1"
  from Cons.prems(2) have d: "distinct (map addr (live st))" by (simp add: heap_ok_def)
  have s1: "?s1 = st\<lparr>timers := ts, tmptimers := t # tmptimers st\<rparr>"
    by (rule t_add_tmp_head [OF ts d])
  have h1: "heap_ok ?s1" and u1: "unique_ids ?s1"
    using Cons.prems(2,3) ts by (simp_all add: heap_ok_t_add_tmp unique_ids_t_add_tmp)
  have f1: "due_front ref ?s1 = post" "\<exists>rest. tmptimers ?s1 = t # rest"
    by (simp_all add: s1 due_front_def rest)
  from kf Cons.prems(1) h1 u1 f1 have f2: "due_front ref ?s2 = post"
    unfolding keeps_front_def by blast
  have h2: "heap_ok ?s2" and u2: "unique_ids ?s2"
    using h1 u1 by (simp_all add: heap_ok_invoke unique_ids_invoke)
  have step: "flush_loop cb ref st k = flush_loop cb ref ?s2 (k + 1)"
    using dt by (subst flush_loop.simps) (simp add: ts due_def)
  from Cons.prems(1) have "D = (pre @ [t]) @ post" by simp
  from Cons.IH [OF this h2 u2 f2, of "k + 1"] obtain y where
    y: "flush_loop cb ref ?s2 (k + 1) = Some (k + 1 + of_nat (length post), y)"
      "called y = called ?s2 @ map ident post" "due_front ref y = []" "heap_ok y" "unique_ids y"
    by blast
  have "called ?s1 = called st" by (simp add: s1)
  with y step show ?case by (simp add: ident_def add.assoc add.commute)
qed

lemma libt_flush_front:
  assumes h: "heap_ok s" and u: "unique_ids s"
    and kf: "keeps_front cb (flush_ref now) (due_front (flush_ref now) s)"
  shows "\<exists>s'. libt_flush cb now s = Some (of_nat (length (due_front (flush_ref now) s)), s')
           \<and> called s' = called s @ map ident (due_front (flush_ref now) s)
           \<and> tmptimers s' = [] \<and> due_front (flush_ref now) s' = []"
proof -
  let ?D = "due_front (flush_ref now) s"
  from flush_loop_front [OF kf, of "[]" ?D s 0] h u obtain y where
    y: "flush_loop cb (flush_ref now) s 0 = Some (of_nat (length ?D), y)"
      "called y = called s @ map ident ?D" "due_front (flush_ref now) y = []" "heap_ok y"
    by auto
  from y(4) have d: "distinct (map addr (live y))" by (simp add: heap_ok_def)
  from libt_flush_result [OF y(1) d] y(2,3) show ?thesis
    by (simp add: due_front_def)
qed

text \<open>Callbacks that keep the due front: those that do nothing, and those that re-arm
  their own timer at a time later than the reference time.\<close>

lemma quiet_keeps_front:
  assumes "\<forall>u \<in> set D. \<forall>st. cb (fn u) (dat u) st = []"
  shows "keeps_front cb ref D"
  using assms by (auto simp: keeps_front_def invoke_def due_front_def)

lemma takeWhile_due_t_scan:
  "\<not> due ref t \<Longrightarrow> takeWhile (due ref) (t_scan t xs) = takeWhile (due ref) xs"
proof (induction xs)
  case Nil
  then show ?case by (simp add: t_add_def)
next
  case (Cons x xs)
  show ?case
  proof (cases "due ref x")
    case True
    with Cons.prems have "\<not> dlt (wakeup t) (wakeup x)"
      unfolding due_def dgt_def by (cases "wakeup t"; cases "wakeup x"; cases ref) auto
    with Cons True show ?thesis by simp
  next
    case False
    with Cons.prems show ?thesis by (simp add: t_add_def)
  qed
qed

lemma rearm_keeps_front:
  assumes re: "\<forall>u \<in> set D. \<forall>st. \<exists>nw w flags.
        cb (fn u) (dat u) st = [Add nw w (fn u) (dat u) flags]
        \<and> dgt (update_wakeup nw w flags (wakeup u)) ref"
  shows "keeps_front cb ref D"
  unfolding keeps_front_def
proof (intro allI impI)
  fix pre t post st
  assume D: "D = pre @ t # post" and h: "heap_ok st" and u: "unique_ids st"
    and tmp: "\<exists>rest. tmptimers st = t # rest" and fr: "due_front ref st = post"
  let ?st = "st\<lparr>called := called st @ [(fn t, dat t)]\<rparr>"
  from D have "t \<in> set D" by simp
  with re obtain nw w flags where
    cb: "cb (fn t) (dat t) st = [Add nw w (fn t) (dat t) flags]"
    and later: "dgt (update_wakeup nw w flags (wakeup t)) ref"
    by blast
  from tmp have tl: "t \<in> set (live ?st)" by (auto simp: live_def)
  have inv: "invoke cb t st = snd (libt_add_timeoutx nw w (fn t) (dat t) flags ?st)"
    by (simp add: invoke_def cb)
  from u have "unique_ids ?st" by simp
  from t_find_in_tmp [OF this tl] have found: "t_find (fn t) (dat t) ?st = Some t" .
  show "due_front ref (invoke cb t st) = post"
  proof (cases "isnan w \<or> LIBT_MOD \<notin> flags")
    case True
    with found have "snd (libt_add_timeoutx nw w (fn t) (dat t) flags ?st) = ?st"
      by (auto simp: libt_add_timeoutx_def)
    with inv fr show ?thesis by (simp add: due_front_def)
  next
    case False
    let ?t' = "t\<lparr>wakeup := update_wakeup nw w flags (wakeup t)\<rparr>"
    from False add_timeoutx_found [OF found]
    have "snd (libt_add_timeoutx nw w (fn t) (dat t) flags ?st) = t_add_sorted ?t' ?st"
      by simp
    with inv have tm: "timers (invoke cb t st) = t_scan ?t' (unlink (addr t) (timers st))"
      by (simp add: timers_t_add_sorted)
    from h tmp have "\<forall>x \<in> set (timers st). addr x \<noteq> addr t"
      by (auto simp: heap_ok_def live_def)
    then have "unlink (addr t) (timers st) = timers st" by (rule unlink_id)
    moreover have "\<not> due ref ?t'" using later by (simp add: due_def)
    ultimately show ?thesis using tm fr by (simp add: due_front_def takeWhile_due_t_scan)
  qed
qed

section \<open>The callbacks a flush invokes\<close>

lemma flush_loop_rearm_forever:
  "flush_loop (\<lambda>f d st. [Add 0 (Fin 0) f d {LIBT_ADD, LIBT_MOD}]) (flush_ref 0)
     \<lparr>timers = [\<lparr>addr = 0, fn = 1, dat = 0, wakeup = Fin 0\<rparr>], tmptimers = [], brk = 1,
      freed = [], called = []\<rparr> 0 = None"
proof -
  let ?cb = "\<lambda>f d (st :: libt). [Add 0 (Fin 0) f d {LIBT_ADD, LIBT_MOD}]"
  let ?t = "\<lparr>addr = 0, fn = 1, dat = 0, wakeup = Fin 0\<rparr>"
  let ?P = "\<lambda>c ref st (k :: 32 word) (y :: 32 word \<times> libt).
      c = ?cb \<and> ref = flush_ref 0 \<and> timers st = [?t] \<and> tmptimers st = [] \<longrightarrow> False"
  have never: "?P c ref st k y" if "flush_loop c ref st k = Some y" for c ref st k y
  proof (rule flush_loop.raw_induct [where P = ?P, OF _ that])
    fix loop c ref st k y
    assume IH: "\<And>c ref st k y. loop c ref st k = Some y \<Longrightarrow> ?P c ref st k y"
      and body: "(case timers st of
                    [] \<Rightarrow> Some (k, st)
                  | t # x \<Rightarrow> if dgt (wakeup t) ref then Some (k, st)
                             else loop c ref (invoke c t (t_add_tmp t st)) (k + 1)) = Some y"
    show "?P c ref st k y"
    proof
      assume a: "c = ?cb \<and> ref = flush_ref 0 \<and> timers st = [?t] \<and> tmptimers st = []"
      let ?st1 = "invoke c ?t (t_add_tmp ?t st)"
      from body a have run: "loop c ref ?st1 (k + 1) = Some y" by (simp add: flush_ref_at_0)
      have "timers ?st1 = [?t] \<and> tmptimers ?st1 = []"
        using a by (simp add: run_defs)
      with IH [OF run] a show False by simp
    qed
  qed
  show ?thesis
  proof (rule ccontr)
    assume "\<not> ?thesis"
    then obtain y where "flush_loop ?cb (flush_ref 0)
       \<lparr>timers = [?t], tmptimers = [], brk = 1, freed = [], called = []\<rparr> 0 = Some y"
      by auto
    from never [OF this] show False by simp
  qed
qed

text \<open>
  The reference time is a rounded sum: a timer scheduled one millisecond ahead at clock
  value 1 has the wakeup \<open>0.001 + 1\<close>, which is the reference time \<open>1 + 0.001\<close> of a flush
  at the same clock value, and the flush takes it.
\<close>

lemma flush_within_millisecond:
  "libt_flush (\<lambda>_ _ _. []) 1
     (snd (libt_add_timeoutx 1 (fl (1 / 1000)) 1 0 {LIBT_ADD, LIBT_RELATIVE} libt_init))
   = Some (1, \<lparr>timers = [], tmptimers = [], brk = 1, freed = [0], called = [(1, 0)]\<rparr>)"
  by (simp add: run_defs fl_milli flush_ref_def dlt_irrefl)

text \<open>
  C1, as stated: for every queue state, \<open>libt_flush\<close> invokes exactly the callbacks of the
  timers whose wakeup is at most \<open>now + 0.001\<close> and returns their number. Callbacks may
  change the queue during the pass. With two timers due at 1 and 2, where the callback of
  the first cancels the second, a flush at 2.5 invokes one callback, although the wakeup
  of the second timer is at most the reference time. A callback that schedules its own
  timer at the absolute time 0 is due again at once, and the flush does not return.
\<close>

theorem flush_callbacks_counterexample:
  "dle (Fin 2) (flush_ref 2.5)
   \<and> libt_flush (\<lambda>f d st. if f = 1 then [Remove 2 0] else []) 2.5
        \<lparr>timers = [\<lparr>addr = 0, fn = 1, dat = 0, wakeup = Fin 1\<rparr>,
                   \<lparr>addr = 1, fn = 2, dat = 0, wakeup = Fin 2\<rparr>],
         tmptimers = [], brk = 2, freed = [], called = []\<rparr>
       = Some (1, \<lparr>timers = [], tmptimers = [], brk = 2, freed = [1, 0], called = [(1, 0)]\<rparr>)
   \<and> libt_flush (\<lambda>f d st. [Add 0 (Fin 0) f d {LIBT_ADD, LIBT_MOD}]) 0
        \<lparr>timers = [\<lparr>addr = 0, fn = 1, dat = 0, wakeup = Fin 0\<rparr>], tmptimers = [], brk = 1,
         freed = [], called = []\<rparr> = None"
proof (intro conjI)
  show "libt_flush (\<lambda>f d st. [Add 0 (Fin 0) f d {LIBT_ADD, LIBT_MOD}]) 0
        \<lparr>timers = [\<lparr>addr = 0, fn = 1, dat = 0, wakeup = Fin 0\<rparr>], tmptimers = [], brk = 1,
         freed = [], called = []\<rparr> = None"
    using flush_loop_rearm_forever by (simp add: libt_flush_def)
qed (simp_all add: run_defs flush_ref_at_2_5)

text \<open>
  C1, amended. The reference time is \<open>now + 0.001\<close> in binary64 arithmetic. The loop of
  \<open>libt_flush\<close> looks at the head of the pending list: it stops when the list is empty or
  the head is later than the reference time, and otherwise moves the head to \<open>tmptimers\<close>,
  invokes its callback, counts, and looks again. Whatever the callbacks do, a flush that
  returns has invoked as many callbacks as it reports (the count is an \<open>int\<close>, so the
  number modulo \<open>2 ^ 32\<close>), has emptied \<open>tmptimers\<close>, and leaves no timer at the head of the
  pending list that is not later than the reference time. When the records of the two
  lists are distinct, with one timer for an identity, and each callback invoked leaves
  the due front of the pending list as it is, the flush returns and the callbacks
  invoked are exactly those of the timers at the front of the pending list that were
  not later than the reference time at the call, in the order of the list. Callbacks
  that do nothing to the queue keep the due front, and so do callbacks that schedule
  their own timer again at a time later than the reference time. On a sorted list the
  due front is the list of the timers whose wakeup is at most the reference time.
\<close>

theorem flush_due_front:
  "(timers s = [] \<longrightarrow> flush_loop cb ref s k = Some (k, s))
   \<and> (timers s = t # ts \<longrightarrow> \<not> due ref t \<longrightarrow> flush_loop cb ref s k = Some (k, s))
   \<and> (timers s = t # ts \<longrightarrow> due ref t \<longrightarrow>
        flush_loop cb ref s k = flush_loop cb ref (invoke cb t (t_add_tmp t s)) (k + 1))
   \<and> (heap_ok s \<longrightarrow> timers s = t # ts \<longrightarrow>
        t_add_tmp t s = s\<lparr>timers := ts, tmptimers := t # tmptimers s\<rparr>)
   \<and> called (invoke cb t s) = called s @ [(fn t, dat t)]
   \<and> (libt_flush cb now s = Some (cnt, s') \<longrightarrow>
        (\<exists>ext. called s' = called s @ ext \<and> cnt = of_nat (length ext)
           \<and> (length ext < 2 ^ 31 \<longrightarrow> sint cnt = int (length ext)))
        \<and> tmptimers s' = []
        \<and> (heap_ok s \<longrightarrow> due_front (flush_ref now) s' = []))
   \<and> (heap_ok s \<longrightarrow> unique_ids s \<longrightarrow>
        keeps_front cb (flush_ref now) (due_front (flush_ref now) s) \<longrightarrow>
        (\<exists>s'. libt_flush cb now s = Some (of_nat (length (due_front (flush_ref now) s)), s')
           \<and> called s' = called s @ map ident (due_front (flush_ref now) s)
           \<and> tmptimers s' = [] \<and> due_front (flush_ref now) s' = []))
   \<and> (heap_ok s \<longrightarrow>
        (\<forall>u \<in> set (due_front (flush_ref now) s). \<forall>st. cb (fn u) (dat u) st = []) \<longrightarrow>
        libt_flush cb now s =
          Some (of_nat (length (due_front (flush_ref now) s)),
                s\<lparr>timers := dropWhile (due (flush_ref now)) (timers s),
                   tmptimers := [],
                   freed := freed s @ map addr (rev (due_front (flush_ref now) s) @ tmptimers s),
                   called := called s @ map ident (due_front (flush_ref now) s)\<rparr>))
   \<and> ((\<forall>u \<in> set D. \<forall>st. cb (fn u) (dat u) st = []) \<longrightarrow> keeps_front cb ref D)
   \<and> ((\<forall>u \<in> set D. \<forall>st. \<exists>nw w flags.
          cb (fn u) (dat u) st = [Add nw w (fn u) (dat u) flags]
          \<and> dgt (update_wakeup nw w flags (wakeup u)) ref) \<longrightarrow> keeps_front cb ref D)
   \<and> (sorted_le (timers s) \<longrightarrow> no_nan s \<longrightarrow>
        due_front (flush_ref now) s = filter (\<lambda>t. dle (wakeup t) (flush_ref now)) (timers s))"
proof (intro conjI impI)
  assume "timers s = []"
  then show "flush_loop cb ref s k = Some (k, s)"
    by (subst flush_loop.simps) simp
next
  assume "timers s = t # ts" "\<not> due ref t"
  then show "flush_loop cb ref s k = Some (k, s)"
    by (subst flush_loop.simps) (simp add: due_def)
next
  assume "timers s = t # ts" "due ref t"
  then show "flush_loop cb ref s k = flush_loop cb ref (invoke cb t (t_add_tmp t s)) (k + 1)"
    by (subst flush_loop.simps) (simp add: due_def)
next
  assume "heap_ok s" "timers s = t # ts"
  then show "t_add_tmp t s = s\<lparr>timers := ts, tmptimers := t # tmptimers s\<rparr>"
    by (simp add: t_add_tmp_head heap_ok_def)
next
  show "called (invoke cb t s) = called s @ [(fn t, dat t)]" by simp
next
  assume run: "libt_flush cb now s = Some (cnt, s')"
  from libt_flush_count [OF run]
  show "\<exists>ext. called s' = called s @ ext \<and> cnt = of_nat (length ext)
           \<and> (length ext < 2 ^ 31 \<longrightarrow> sint cnt = int (length ext))"
    and "tmptimers s' = []"
    by blast+
  assume "heap_ok s"
  with libt_flush_count(3) [OF run] show "due_front (flush_ref now) s' = []" by blast
next
  assume "heap_ok s" "unique_ids s" "keeps_front cb (flush_ref now) (due_front (flush_ref now) s)"
  then show "\<exists>s'. libt_flush cb now s = Some (of_nat (length (due_front (flush_ref now) s)), s')
           \<and> called s' = called s @ map ident (due_front (flush_ref now) s)
           \<and> tmptimers s' = [] \<and> due_front (flush_ref now) s' = []"
    by (rule libt_flush_front)
next
  assume h: "heap_ok s"
    and q: "\<forall>u \<in> set (due_front (flush_ref now) s). \<forall>st. cb (fn u) (dat u) st = []"
  from h have d: "distinct (map addr (live s))" by (simp add: heap_ok_def)
  from q have "\<forall>t \<in> set (takeWhile (due (flush_ref now)) (timers s)). \<forall>st. cb (fn t) (dat t) st = []"
    by (simp add: due_front_def)
  from libt_flush_quiet [OF d this]
  show "libt_flush cb now s =
          Some (of_nat (length (due_front (flush_ref now) s)),
                s\<lparr>timers := dropWhile (due (flush_ref now)) (timers s),
                   tmptimers := [],
                   freed := freed s @ map addr (rev (due_front (flush_ref now) s) @ tmptimers s),
                   called := called s @ map ident (due_front (flush_ref now) s)\<rparr>)"
    by (simp add: due_front_def)
next
  assume "\<forall>u \<in> set D. \<forall>st. cb (fn u) (dat u) st = []"
  then show "keeps_front cb ref D" by (rule quiet_keeps_front)
next
  assume "\<forall>u \<in> set D. \<forall>st. \<exists>nw w flags.
          cb (fn u) (dat u) st = [Add nw w (fn u) (dat u) flags]
          \<and> dgt (update_wakeup nw w flags (wakeup u)) ref"
  then show "keeps_front cb ref D" by (rule rearm_keeps_front)
next
  assume s: "sorted_le (timers s)" and n: "no_nan s"
  from s n have nd: "nondecreasing (timers s)" by (simp add: sorted_le_iff)
  from n have nn: "\<forall>u \<in> set (timers s). \<not> isnan (wakeup u)" by (simp add: no_nan_def)
  have "\<not> isnan (flush_ref now)" by (simp add: flush_ref_def)
  from due_filter [OF nd nn this]
  show "due_front (flush_ref now) s = filter (\<lambda>t. dle (wakeup t) (flush_ref now)) (timers s)"
    by (simp add: due_front_def)
qed

theorem flush_due_front_witness:
  "api_run (\<lambda>_ _ _. [])
     [Schedule 0 (Fin 3) 3 0 {LIBT_ADD}, Schedule 0 (Fin 1) 1 0 {LIBT_ADD},
      Schedule 0 (Fin 2) 2 0 {LIBT_ADD}] libt_init
     = Some \<lparr>timers = [\<lparr>addr = 1, fn = 1, dat = 0, wakeup = Fin 1\<rparr>,
                        \<lparr>addr = 2, fn = 2, dat = 0, wakeup = Fin 2\<rparr>,
                        \<lparr>addr = 0, fn = 3, dat = 0, wakeup = Fin 3\<rparr>],
              tmptimers = [], brk = 3, freed = [], called = []\<rparr>
   \<and> libt_flush (\<lambda>_ _ _. []) 2.5
        \<lparr>timers = [\<lparr>addr = 1, fn = 1, dat = 0, wakeup = Fin 1\<rparr>,
                   \<lparr>addr = 2, fn = 2, dat = 0, wakeup = Fin 2\<rparr>,
                   \<lparr>addr = 0, fn = 3, dat = 0, wakeup = Fin 3\<rparr>],
         tmptimers = [], brk = 3, freed = [], called = []\<rparr>
       = Some (2, \<lparr>timers = [\<lparr>addr = 0, fn = 3, dat = 0, wakeup = Fin 3\<rparr>],
                   tmptimers = [], brk = 3, freed = [2, 1], called = [(1, 0), (2, 0)]\<rparr>)
   \<and> libt_next_wakeup \<lparr>timers = [\<lparr>addr = 0, fn = 3, dat = 0, wakeup = Fin 3\<rparr>],
                   tmptimers = [], brk = 3, freed = [2, 1], called = [(1, 0), (2, 0)]\<rparr> = Fin 3
   \<and> libt_flush (\<lambda>f d st. [Add 2.5 (Fin 5) f d {LIBT_MOD, LIBT_REPEAT}]) 2.5
        \<lparr>timers = [\<lparr>addr = 1, fn = 1, dat = 0, wakeup = Fin 1\<rparr>,
                   \<lparr>addr = 2, fn = 2, dat = 0, wakeup = Fin 2\<rparr>,
                   \<lparr>addr = 0, fn = 3, dat = 0, wakeup = Fin 3\<rparr>],
         tmptimers = [], brk = 3, freed = [], called = []\<rparr>
       = Some (2, \<lparr>timers = [\<lparr>addr = 0, fn = 3, dat = 0, wakeup = Fin 3\<rparr>,
                              \<lparr>addr = 1, fn = 1, dat = 0, wakeup = Fin 6\<rparr>,
                              \<lparr>addr = 2, fn = 2, dat = 0, wakeup = Fin 7\<rparr>],
                   tmptimers = [], brk = 3, freed = [], called = [(1, 0), (2, 0)]\<rparr>)"
proof -
  let ?q = "\<lambda>(f :: nat) (d :: nat) (st :: libt). [] :: call list"
  let ?p = "\<lambda>(f :: nat) (d :: nat) (st :: libt). [Add 2.5 (Fin 5) f d {LIBT_MOD, LIBT_REPEAT}]"
  let ?a = "\<lparr>addr = 1, fn = 1, dat = 0, wakeup = Fin 1\<rparr>"
  let ?b = "\<lparr>addr = 2, fn = 2, dat = 0, wakeup = Fin 2\<rparr>"
  let ?c = "\<lparr>addr = 0, fn = 3, dat = 0, wakeup = Fin 3\<rparr>"
  let ?s = "\<lparr>timers = [?a, ?b, ?c], tmptimers = [], brk = 3, freed = [], called = []\<rparr>"
  let ?s1 = "\<lparr>timers = [?c], tmptimers = [], brk = 3, freed = [2, 1], called = [(1, 0), (2, 0)]\<rparr>"
  let ?s2 = "\<lparr>timers = [?c, ?a\<lparr>wakeup := Fin 6\<rparr>, ?b\<lparr>wakeup := Fin 7\<rparr>], tmptimers = [],
              brk = 3, freed = [], called = [(1, 0), (2, 0)]\<rparr>"
  have h: "heap_ok ?s" "unique_ids ?s"
    by (simp_all add: heap_ok_def unique_ids_def live_def ident_def)
  have D: "due_front (flush_ref 2.5) ?s = [?a, ?b]"
    by (simp add: due_front_def due_def flush_ref_at_2_5)
  have upd: "update_wakeup 2.5 (Fin 5) {LIBT_MOD, LIBT_REPEAT} (Fin 1) = Fin 6"
    "update_wakeup 2.5 (Fin 5) {LIBT_MOD, LIBT_REPEAT} (Fin 2) = Fin 7"
    by (simp_all add: update_wakeup_def fl_small_values)
  note quiet = flush_due_front [where s = ?s and cb = ?q and now = "2.5" and D = "[?a, ?b]"
      and ref = "flush_ref 2.5" and t = ?a and ts = "[?b, ?c]" and k = 0 and cnt = 2 and s' = ?s1]
  note rearm = flush_due_front [where s = ?s and cb = ?p and now = "2.5" and D = "[?a, ?b]"
      and ref = "flush_ref 2.5" and t = ?a and ts = "[?b, ?c]" and k = 0 and cnt = 2 and s' = ?s2]
  have "\<forall>u \<in> set (due_front (flush_ref 2.5) ?s). \<forall>st. ?q (fn u) (dat u) st = []" by simp
  with quiet h have "libt_flush ?q 2.5 ?s =
          Some (of_nat (length (due_front (flush_ref 2.5) ?s)),
                ?s\<lparr>timers := dropWhile (due (flush_ref 2.5)) (timers ?s),
                   tmptimers := [],
                   freed := freed ?s @ map addr (rev (due_front (flush_ref 2.5) ?s) @ tmptimers ?s),
                   called := called ?s @ map ident (due_front (flush_ref 2.5) ?s)\<rparr>)"
    by blast
  then have e1: "libt_flush ?q 2.5 ?s = Some (2, ?s1)"
    unfolding D by (simp add: due_def flush_ref_at_2_5 ident_def)
  have "\<forall>u \<in> set [?a, ?b]. \<forall>st. \<exists>nw w flags.
          ?p (fn u) (dat u) st = [Add nw w (fn u) (dat u) flags]
          \<and> dgt (update_wakeup nw w flags (wakeup u)) (flush_ref 2.5)"
  proof (intro ballI allI)
    fix u and st :: libt
    assume "u \<in> set [?a, ?b]"
    then have "dgt (update_wakeup 2.5 (Fin 5) {LIBT_MOD, LIBT_REPEAT} (wakeup u)) (flush_ref 2.5)"
      using upd by (auto simp: flush_ref_at_2_5)
    then show "\<exists>nw w flags. ?p (fn u) (dat u) st = [Add nw w (fn u) (dat u) flags]
          \<and> dgt (update_wakeup nw w flags (wakeup u)) (flush_ref 2.5)"
      by blast
  qed
  with rearm have "keeps_front ?p (flush_ref 2.5) [?a, ?b]" by blast
  with rearm h D obtain s' where
    r: "libt_flush ?p 2.5 ?s = Some (of_nat (length (due_front (flush_ref 2.5) ?s)), s')"
      "called s' = called ?s @ map ident (due_front (flush_ref 2.5) ?s)"
    by (metis (no_types, lifting))
  have e2: "libt_flush ?p 2.5 ?s = Some (2, ?s2)"
    by (simp add: run_defs flush_ref_at_2_5 fl_small_values)
  with r D have "called ?s2 = [(1, 0), (2, 0)]" by (simp add: ident_def)
  have "api_run ?q [Schedule 0 (Fin 3) 3 0 {LIBT_ADD}, Schedule 0 (Fin 1) 1 0 {LIBT_ADD},
      Schedule 0 (Fin 2) 2 0 {LIBT_ADD}] libt_init = Some ?s"
    by (simp add: run_defs)
  moreover have "libt_next_wakeup ?s1 = Fin 3" by (simp add: libt_next_wakeup_def)
  ultimately show ?thesis using e1 e2 by simp
qed

section \<open>Calls that leave an identity alone\<close>

lemma tmptimers_t_add_sorted: "tmptimers (t_add_sorted t s) = unlink (addr t) (tmptimers s)"
  by (simp add: t_add_sorted_def t_del_def Let_def)

lemma heap_ok_run_call: "heap_ok s \<Longrightarrow> heap_ok (run_call c s)"
  using heap_ok_run_calls [of s "[c]"] by simp

lemma unique_ids_run_call: "unique_ids s \<Longrightarrow> unique_ids (run_call c s)"
  using unique_ids_run_calls [of s "[c]"] by simp

text \<open>A call for another identity leaves a record where it is, and as it is.\<close>

lemma untouched_run_call:
  assumes h: "heap_ok s" and x: "x \<in> set (live s)" and c: "\<not> touches (fn x) (dat x) c"
  shows "(x \<in> set (timers s) \<longrightarrow> x \<in> set (timers (run_call c s)))
       \<and> (x \<in> set (tmptimers s) \<longrightarrow> x \<in> set (tmptimers (run_call c s)))"
proof -
  have other: "addr v \<noteq> addr x" if "t_find f d s = Some v" "f \<noteq> fn x \<or> d \<noteq> dat x" for f d v
  proof
    assume a: "addr v = addr x"
    from t_find_Some [OF that(1)] have v: "v \<in> set (live s)" "same_id f d v" by simp_all
    from heap_ok_addr_inj [OF h v(1) x a] have "v = x" .
    with v(2) that(2) show False by (auto simp: same_id_def)
  qed
  from h x have lt: "addr x < brk s" by (simp add: heap_ok_def)
  show ?thesis
  proof (cases c)
    case (Add now w f d flags)
    with c have ne: "f \<noteq> fn x \<or> d \<noteq> dat x" by auto
    show ?thesis
    proof (cases "t_find f d s")
      case None
      with lt show ?thesis
        by (auto simp: Add libt_add_timeoutx_def Let_def timers_t_add_sorted tmptimers_t_add_sorted)
    next
      case (Some v)
      from other [OF Some ne] Some show ?thesis
        by (auto simp: Add libt_add_timeoutx_def Let_def timers_t_add_sorted tmptimers_t_add_sorted)
    qed
  next
    case (Remove f d)
    with c have ne: "f \<noteq> fn x \<or> d \<noteq> dat x" by auto
    show ?thesis
    proof (cases "t_find f d s")
      case None
      then show ?thesis by (simp add: Remove libt_remove_timeout_def)
    next
      case (Some v)
      from other [OF Some ne] Some show ?thesis
        by (auto simp: Remove libt_remove_timeout_def free_def t_del_def)
    qed
  qed
qed

lemma untouched_run_calls:
  "heap_ok s \<Longrightarrow> \<forall>c \<in> set cs. \<not> touches (fn x) (dat x) c \<Longrightarrow>
   (x \<in> set (timers s) \<longrightarrow> x \<in> set (timers (run_calls cs s)))
   \<and> (x \<in> set (tmptimers s) \<longrightarrow> x \<in> set (tmptimers (run_calls cs s)))"
proof (induction cs arbitrary: s)
  case Nil
  then show ?case by simp
next
  case (Cons c cs)
  have h1: "heap_ok (run_call c s)" using Cons.prems(1) by (rule heap_ok_run_call)
  from Cons.prems(2) have nc: "\<not> touches (fn x) (dat x) c"
    and ncs: "\<forall>c \<in> set cs. \<not> touches (fn x) (dat x) c" by simp_all
  note IH = Cons.IH [OF h1 ncs]
  show ?case
  proof (intro conjI impI)
    assume "x \<in> set (timers s)"
    then have "x \<in> set (timers (run_call c s))"
      using untouched_run_call [OF Cons.prems(1) _ nc] by (simp add: live_def)
    with IH show "x \<in> set (timers (run_calls (c # cs) s))" by simp
  next
    assume "x \<in> set (tmptimers s)"
    then have "x \<in> set (tmptimers (run_call c s))"
      using untouched_run_call [OF Cons.prems(1) _ nc] by (simp add: live_def)
    with IH show "x \<in> set (tmptimers (run_calls (c # cs) s))" by simp
  qed
qed

text \<open>An update of the identity of a record moves the record to the pending list.\<close>

lemma self_update_run_call:
  assumes u: "unique_ids s" and x: "x \<in> set (live s)"
    and w: "\<not> isnan w" and m: "LIBT_MOD \<in> flags"
  shows "x\<lparr>wakeup := update_wakeup nw w flags (wakeup x)\<rparr>
           \<in> set (timers (run_call (Add nw w (fn x) (dat x) flags) s))"
  using add_timeoutx_found [OF t_find_in_tmp [OF u x] w m, of nw]
  by (simp add: timers_t_add_sorted)

lemma run_calls_self_update:
  "filter (touches (fn x) (dat x)) cs = [Add nw w (fn x) (dat x) flags] \<Longrightarrow>
   heap_ok s \<Longrightarrow> unique_ids s \<Longrightarrow> x \<in> set (tmptimers s) \<Longrightarrow>
   \<not> isnan w \<Longrightarrow> LIBT_MOD \<in> flags \<Longrightarrow>
   x\<lparr>wakeup := update_wakeup nw w flags (wakeup x)\<rparr> \<in> set (timers (run_calls cs s))"
proof (induction cs arbitrary: s)
  case Nil
  then show ?case by simp
next
  case (Cons c cs)
  let ?x' = "x\<lparr>wakeup := update_wakeup nw w flags (wakeup x)\<rparr>"
  have h1: "heap_ok (run_call c s)" using Cons.prems(2) by (rule heap_ok_run_call)
  have u1: "unique_ids (run_call c s)" using Cons.prems(3) by (rule unique_ids_run_call)
  from Cons.prems(4) have xl: "x \<in> set (live s)" by (simp add: live_def)
  show ?case
  proof (cases "touches (fn x) (dat x) c")
    case True
    with Cons.prems(1) have c: "c = Add nw w (fn x) (dat x) flags"
      and rest: "filter (touches (fn x) (dat x)) cs = []" by simp_all
    from rest have "\<forall>c \<in> set cs. \<not> touches (fn ?x') (dat ?x') c"
      by (simp add: filter_empty_conv)
    moreover have "?x' \<in> set (timers (run_call c s))"
      unfolding c using Cons.prems(3) xl Cons.prems(5,6) by (rule self_update_run_call)
    ultimately have "?x' \<in> set (timers (run_calls cs (run_call c s)))"
      using untouched_run_calls [OF h1, of cs ?x'] by blast
    then show ?thesis by simp
  next
    case False
    with Cons.prems(1) have rest: "filter (touches (fn x) (dat x)) cs = [Add nw w (fn x) (dat x) flags]"
      by simp
    from untouched_run_call [OF Cons.prems(2) xl False] Cons.prems(4)
    have "x \<in> set (tmptimers (run_call c s))" by blast
    from Cons.IH [OF rest h1 u1 this Cons.prems(5,6)] show ?thesis by simp
  qed
qed

section \<open>A timer that is scheduled again by its callback\<close>

lemma count_list_zero: "x \<notin> set xs \<Longrightarrow> count_list xs x = 0"
  by (induction xs) auto

text \<open>
  The loop of \<open>libt_flush\<close>, when the callback of the identity (f, d) schedules that
  identity once, with the same arguments each time, and no other callback schedules or
  cancels it: every invocation applies the update to the wakeup of the one record.
\<close>

lemma flush_loop_repeat:
  assumes self: "\<forall>st. filter (touches f d) (cb f d st) = [Add nw w f d flags]"
    and others: "\<forall>f' d' st. (f', d') \<noteq> (f, d) \<longrightarrow> (\<forall>c \<in> set (cb f' d' st). \<not> touches f d c)"
    and w: "\<not> isnan w" and m: "LIBT_MOD \<in> flags"
    and run: "flush_loop cb ref s k = Some r"
    and h: "heap_ok s" and u: "unique_ids s"
    and x: "x \<in> set (timers s)" and id: "fn x = f" "dat x = d"
  shows "heap_ok (snd r) \<and> unique_ids (snd r)
       \<and> (\<exists>ext. called (snd r) = called s @ ext
             \<and> x\<lparr>wakeup := (update_wakeup nw w flags ^^ count_list ext (f, d)) (wakeup x)\<rparr>
                 \<in> set (timers (snd r))
             \<and> (\<not> due ref x \<longrightarrow> (f, d) \<notin> set ext)
             \<and> (\<not> due ref (x\<lparr>wakeup := update_wakeup nw w flags (wakeup x)\<rparr>) \<longrightarrow>
                  count_list ext (f, d) \<le> 1))"
proof -
  let ?upd = "update_wakeup nw w flags"
  let ?Q = "\<lambda>st y x. heap_ok (snd y) \<and> unique_ids (snd y)
       \<and> (\<exists>ext. called (snd y) = called st @ ext
             \<and> x\<lparr>wakeup := (?upd ^^ count_list ext (f, d)) (wakeup x)\<rparr> \<in> set (timers (snd y))
             \<and> (\<not> due ref x \<longrightarrow> (f, d) \<notin> set ext)
             \<and> (\<not> due ref (x\<lparr>wakeup := ?upd (wakeup x)\<rparr>) \<longrightarrow> count_list ext (f, d) \<le> 1))"
  let ?P = "\<lambda>c n st (k :: 32 word) (y :: 32 word \<times> libt). c = cb \<and> n = ref \<longrightarrow>
       (\<forall>x. heap_ok st \<and> unique_ids st \<and> x \<in> set (timers st) \<and> fn x = f \<and> dat x = d
            \<longrightarrow> ?Q st y x)"
  have "?P cb ref s k r"
  proof (rule flush_loop.raw_induct [where P = ?P, OF _ run])
    fix loop c n st k y
    assume IH: "\<And>c n st k y. loop c n st k = Some y \<Longrightarrow> ?P c n st k y"
      and body: "(case timers st of
                    [] \<Rightarrow> Some (k, st)
                  | t # x \<Rightarrow> if dgt (wakeup t) n then Some (k, st)
                             else loop c n (invoke c t (t_add_tmp t st)) (k + 1)) = Some y"
    show "?P c n st k y"
    proof (intro impI allI)
      fix x
      assume cn: "c = cb \<and> n = ref"
        and pre: "heap_ok st \<and> unique_ids st \<and> x \<in> set (timers st) \<and> fn x = f \<and> dat x = d"
      then have h: "heap_ok st" and u: "unique_ids st" and x: "x \<in> set (timers st)"
        and id: "fn x = f" "dat x = d" by simp_all
      have stop: "?Q st y x" if "y = (k, st)"
      proof (intro conjI exI [of _ "[]"])
        show "heap_ok (snd y)" "unique_ids (snd y)" using that h u by simp_all
        show "called (snd y) = called st @ []" using that by simp
        show "x\<lparr>wakeup := (?upd ^^ count_list [] (f, d)) (wakeup x)\<rparr> \<in> set (timers (snd y))"
          using that x by simp
      qed simp_all
      from x obtain v ts where ts: "timers st = v # ts" by (cases "timers st") auto
      show "?Q st y x"
      proof (cases "dgt (wakeup v) n")
        case True
        with body ts have "y = (k, st)" by simp
        then show ?thesis by (rule stop)
      next
        case False
        let ?s1 = "t_add_tmp v st"
        let ?s1c = "?s1\<lparr>called := called ?s1 @ [(fn v, dat v)]\<rparr>"
        let ?s2 = "invoke c v ?s1"
        from False body ts have next_run: "loop c n ?s2 (k + 1) = Some y" by simp
        from h have d: "distinct (map addr (live st))" by (simp add: heap_ok_def)
        have s1: "?s1 = st\<lparr>timers := ts, tmptimers := v # tmptimers st\<rparr>"
          by (rule t_add_tmp_head [OF ts d])
        have h1: "heap_ok ?s1c" and u1: "unique_ids ?s1c"
          using h u ts by (simp_all add: heap_ok_t_add_tmp unique_ids_t_add_tmp)
        have h2: "heap_ok ?s2" and u2: "unique_ids ?s2"
          using h u ts by (simp_all add: heap_ok_invoke unique_ids_invoke heap_ok_t_add_tmp
              unique_ids_t_add_tmp)
        have c2: "called ?s2 = called st @ [(fn v, dat v)]" by (simp add: s1)
        have inv: "?s2 = run_calls (cb (fn v) (dat v) ?s1) ?s1c"
          using cn by (simp add: invoke_def)
        have all: "\<forall>x. heap_ok ?s2 \<and> unique_ids ?s2 \<and> x \<in> set (timers ?s2)
              \<and> fn x = f \<and> dat x = d \<longrightarrow> ?Q ?s2 y x"
          by (rule mp [OF IH [OF next_run] cn])
        show ?thesis
        proof (cases "v = x")
          case True
          let ?x' = "x\<lparr>wakeup := ?upd (wakeup x)\<rparr>"
          have "filter (touches (fn x) (dat x)) (cb (fn v) (dat v) ?s1)
                  = [Add nw w (fn x) (dat x) flags]"
            using self True id by simp
          moreover have "x \<in> set (tmptimers ?s1c)" unfolding s1 using True by simp
          ultimately have "?x' \<in> set (timers (run_calls (cb (fn v) (dat v) ?s1) ?s1c))"
            using h1 u1 w m by (intro run_calls_self_update)
          then have x': "?x' \<in> set (timers ?s2)" by (simp add: inv)
          have idx: "fn ?x' = f" "dat ?x' = d" using id by simp_all
          from all have "heap_ok ?s2 \<and> unique_ids ?s2 \<and> ?x' \<in> set (timers ?s2)
              \<and> fn ?x' = f \<and> dat ?x' = d \<longrightarrow> ?Q ?s2 y ?x'"
            by (rule spec)
          with h2 u2 x' idx have "?Q ?s2 y ?x'" by blast
          then obtain ext where
            hy: "heap_ok (snd y)" "unique_ids (snd y)"
            and e: "called (snd y) = called ?s2 @ ext"
              "?x'\<lparr>wakeup := (?upd ^^ count_list ext (f, d)) (wakeup ?x')\<rparr> \<in> set (timers (snd y))"
              "\<not> due ref ?x' \<longrightarrow> (f, d) \<notin> set ext"
            by blast
          let ?ext = "(f, d) # ext"
          have 1: "called (snd y) = called st @ ?ext"
            using e(1) c2 True id by simp
          have 2: "x\<lparr>wakeup := (?upd ^^ count_list ?ext (f, d)) (wakeup x)\<rparr> \<in> set (timers (snd y))"
            using e(2) by (simp add: funpow_swap1)
          have 3: "\<not> due ref x \<longrightarrow> (f, d) \<notin> set ?ext"
            using False True cn by (simp add: due_def)
          have 4: "\<not> due ref ?x' \<longrightarrow> count_list ?ext (f, d) \<le> 1"
            using e(3) by (auto simp: count_list_zero)
          from hy 1 2 3 4 show ?thesis by blast
        next
          case False
          have ne: "(fn v, dat v) \<noteq> (f, d)"
          proof
            assume "(fn v, dat v) = (f, d)"
            then have "ident v = ident x" using id by (simp add: ident_def)
            moreover have "v \<in> set (live st)" "x \<in> set (live st)"
              using ts x by (auto simp: live_def)
            ultimately have "v = x" using unique_ids_same [OF u] by blast
            with False show False ..
          qed
          from x ts False have "x \<in> set (timers ?s1c)" by (simp add: s1)
          moreover have "\<forall>c \<in> set (cb (fn v) (dat v) ?s1). \<not> touches (fn x) (dat x) c"
            using others ne id by blast
          ultimately have "x \<in> set (timers (run_calls (cb (fn v) (dat v) ?s1) ?s1c))"
            using untouched_run_calls [OF h1, of "cb (fn v) (dat v) ?s1" x] by blast
          then have x2: "x \<in> set (timers ?s2)" by (simp add: inv)
          from all have "heap_ok ?s2 \<and> unique_ids ?s2 \<and> x \<in> set (timers ?s2)
              \<and> fn x = f \<and> dat x = d \<longrightarrow> ?Q ?s2 y x"
            by (rule spec)
          with h2 u2 x2 id have "?Q ?s2 y x" by blast
          then obtain ext where
            hy: "heap_ok (snd y)" "unique_ids (snd y)"
            and e: "called (snd y) = called ?s2 @ ext"
              "x\<lparr>wakeup := (?upd ^^ count_list ext (f, d)) (wakeup x)\<rparr> \<in> set (timers (snd y))"
              "\<not> due ref x \<longrightarrow> (f, d) \<notin> set ext"
              "\<not> due ref (x\<lparr>wakeup := ?upd (wakeup x)\<rparr>) \<longrightarrow> count_list ext (f, d) \<le> 1"
            by blast
          let ?ext = "(fn v, dat v) # ext"
          have 1: "called (snd y) = called st @ ?ext" using e(1) c2 by simp
          have 2: "x\<lparr>wakeup := (?upd ^^ count_list ?ext (f, d)) (wakeup x)\<rparr> \<in> set (timers (snd y))"
            using e(2) ne by auto
          have 3: "\<not> due ref x \<longrightarrow> (f, d) \<notin> set ?ext" using e(3) ne by auto
          have 4: "\<not> due ref (x\<lparr>wakeup := ?upd (wakeup x)\<rparr>) \<longrightarrow> count_list ?ext (f, d) \<le> 1"
            using e(4) ne by auto
          from hy 1 2 3 4 show ?thesis by blast
        qed
      qed
    qed
  qed
  with h u x id show ?thesis by simp
qed

lemma libt_flush_repeat:
  assumes self: "\<forall>st. filter (touches (fn t) (dat t)) (cb (fn t) (dat t) st)
                        = [Add nw w (fn t) (dat t) flags]"
    and others: "\<forall>f' d' st. (f', d') \<noteq> (fn t, dat t) \<longrightarrow>
                   (\<forall>c \<in> set (cb f' d' st). \<not> touches (fn t) (dat t) c)"
    and w: "\<not> isnan w" and m: "LIBT_MOD \<in> flags"
    and run: "libt_flush cb now s = Some (cnt, s')"
    and h: "heap_ok s" and u: "unique_ids s" and t: "t \<in> set (timers s)"
  shows "\<exists>ext. called s' = called s @ ext
           \<and> filter (same_id (fn t) (dat t)) (timers s' @ tmptimers s')
               = [t\<lparr>wakeup := (update_wakeup nw w flags ^^ count_list ext (fn t, dat t)) (wakeup t)\<rparr>]
           \<and> (\<not> due (flush_ref now) t \<longrightarrow> (fn t, dat t) \<notin> set ext)
           \<and> (dgt (update_wakeup nw w flags (wakeup t)) (flush_ref now) \<longrightarrow>
                count_list ext (fn t, dat t) \<le> 1)"
proof -
  from run obtain s1 where
    loop: "flush_loop cb (flush_ref now) s 0 = Some (cnt, s1)" and s': "s' = flush_cleanup s1"
    by (auto simp: libt_flush_def split: option.splits)
  from flush_loop_repeat [OF self others w m loop h u t refl refl]
  obtain ext where h1: "heap_ok s1" and u1: "unique_ids s1"
    and e: "called s1 = called s @ ext"
      "t\<lparr>wakeup := (update_wakeup nw w flags ^^ count_list ext (fn t, dat t)) (wakeup t)\<rparr>
         \<in> set (timers s1)"
      "\<not> due (flush_ref now) t \<longrightarrow> (fn t, dat t) \<notin> set ext"
      "\<not> due (flush_ref now) (t\<lparr>wakeup := update_wakeup nw w flags (wakeup t)\<rparr>) \<longrightarrow>
         count_list ext (fn t, dat t) \<le> 1"
    by auto
  let ?tk = "t\<lparr>wakeup := (update_wakeup nw w flags ^^ count_list ext (fn t, dat t)) (wakeup t)\<rparr>"
  from h1 have d: "distinct (map addr (live s1))" by (simp add: heap_ok_def)
  from flush_cleanup_all [OF d]
  have fin: "timers s' = timers s1" "tmptimers s' = []" "called s' = called s1"
    by (simp_all add: s')
  from u1 have "distinct (map ident (timers s1))" by (simp add: unique_ids_def live_def)
  from filter_same_id_unique [OF this e(2), of "fn t" "dat t"]
  have "filter (same_id (fn t) (dat t)) (timers s' @ tmptimers s') = [?tk]"
    by (simp add: fin same_id_def)
  with e fin show ?thesis by (auto simp: due_def)
qed

text \<open>
  C4, as stated: a callback that schedules its own identity again during a flush, with
  REPEAT and period 5, leaves exactly one timer, at the original wakeup plus 5, or at
  the time of the call plus 5 when the former is in the past. The update is as stated,
  but the timer is back on the pending list while the flush is still running: when the
  new wakeup is not later than the reference time of the flush, the timer is taken
  again. A timer at 1 whose callback reads the clock at \<open>6 - 2 ^ -10\<close>, flushed at that
  time: 1 + 5 is 6, not in the past and not later than the reference time, so the
  callback runs twice and the timer ends at 11, which is neither 6 nor the time of the
  call plus 5.
\<close>

theorem repeat_past_counterexample:
  "libt_flush (\<lambda>f d st. [Add (6143 / 1024) (Fin 5) f d {LIBT_MOD, LIBT_REPEAT}]) (6143 / 1024)
     \<lparr>timers = [\<lparr>addr = 0, fn = 1, dat = 0, wakeup = Fin 1\<rparr>], tmptimers = [], brk = 1,
      freed = [], called = []\<rparr>
     = Some (2, \<lparr>timers = [\<lparr>addr = 0, fn = 1, dat = 0, wakeup = Fin 11\<rparr>], tmptimers = [],
                 brk = 1, freed = [], called = [(1, 0), (1, 0)]\<rparr>)
   \<and> dadd (Fin 1) (Fin 5) = Fin 6
   \<and> \<not> dlt (Fin 6) (Fin (6143 / 1024))
   \<and> dadd (Fin (6143 / 1024)) (Fin 5) = Fin (11263 / 1024)"
  by (simp add: run_defs flush_ref_at_6143 fl_small_values)

text \<open>
  C4, amended. For a timer that exists, a scheduling call with UPDATE and REPEAT and a
  time that is a number stores the old wakeup plus the time given, unless that sum is
  earlier than the clock, and then the clock plus the time given; the sums are those of
  binary64 arithmetic. Consequently, when the callback of a pending timer schedules its
  own identity once in this way, reading the clock value \<open>nw\<close>, and no other callback
  schedules or cancels that identity (the callbacks are otherwise arbitrary), a flush
  that returns leaves exactly one timer of the identity: the same record, with the
  update applied to its wakeup once for every invocation of the callback. The callback
  is not invoked when the timer is later than the reference time, and at most once when
  the updated wakeup is later than the reference time: then the timer ends at the
  original wakeup plus the period, or at the clock value plus the period when the
  former is in the past.
\<close>

theorem repeat_update:
  "(t_find f d s = Some t \<longrightarrow> \<not> isnan w \<longrightarrow> LIBT_MOD \<in> flags \<longrightarrow> LIBT_REPEAT \<in> flags \<longrightarrow>
      libt_add_timeoutx now w f d flags s =
        (Inr (), t_add_sorted
                   (t\<lparr>wakeup := (if dlt (dadd (wakeup t) w) (Fin now) then dadd (Fin now) w
                                  else dadd (wakeup t) w)\<rparr>) s))
   \<and> (LIBT_REPEAT \<in> flags \<longrightarrow>
        update_wakeup now w flags old =
          (if dlt (dadd old w) (Fin now) then dadd (Fin now) w else dadd old w))
   \<and> dadd (Fin a) (Fin b) = fl (a + b)
   \<and> (heap_ok s \<longrightarrow> unique_ids s \<longrightarrow> t \<in> set (timers s) \<longrightarrow>
        (\<forall>st. filter (touches (fn t) (dat t)) (cb (fn t) (dat t) st)
                = [Add nw w (fn t) (dat t) flags]) \<longrightarrow>
        (\<forall>f' d' st. (f', d') \<noteq> (fn t, dat t) \<longrightarrow>
                (\<forall>c \<in> set (cb f' d' st). \<not> touches (fn t) (dat t) c)) \<longrightarrow>
        \<not> isnan w \<longrightarrow> LIBT_MOD \<in> flags \<longrightarrow>
        libt_flush cb now s = Some (cnt, s') \<longrightarrow>
        (\<exists>ext. called s' = called s @ ext
           \<and> filter (same_id (fn t) (dat t)) (timers s' @ tmptimers s')
               = [t\<lparr>wakeup := (update_wakeup nw w flags ^^ count_list ext (fn t, dat t))
                                 (wakeup t)\<rparr>]
           \<and> (\<not> due (flush_ref now) t \<longrightarrow> (fn t, dat t) \<notin> set ext)
           \<and> (dgt (update_wakeup nw w flags (wakeup t)) (flush_ref now) \<longrightarrow>
                count_list ext (fn t, dat t) \<le> 1)))
   \<and> (heap_ok s \<longrightarrow> unique_ids s \<longrightarrow> t \<in> set (timers s) \<longrightarrow>
        (\<forall>st. filter (touches (fn t) (dat t)) (cb (fn t) (dat t) st)
                = [Add nw w (fn t) (dat t) flags]) \<longrightarrow>
        (\<forall>f' d' st. (f', d') \<noteq> (fn t, dat t) \<longrightarrow>
                (\<forall>c \<in> set (cb f' d' st). \<not> touches (fn t) (dat t) c)) \<longrightarrow>
        \<not> isnan w \<longrightarrow> LIBT_MOD \<in> flags \<longrightarrow>
        libt_flush cb now s = Some (cnt, s') \<longrightarrow>
        (fn t, dat t) \<in> set (drop (length (called s)) (called s')) \<longrightarrow>
        dgt (update_wakeup nw w flags (wakeup t)) (flush_ref now) \<longrightarrow>
        filter (same_id (fn t) (dat t)) (timers s' @ tmptimers s')
          = [t\<lparr>wakeup := update_wakeup nw w flags (wakeup t)\<rparr>]
        \<and> count_list (drop (length (called s)) (called s')) (fn t, dat t) = 1)"
proof (intro conjI impI)
  assume "t_find f d s = Some t" "\<not> isnan w" "LIBT_MOD \<in> flags" "LIBT_REPEAT \<in> flags"
  then show "libt_add_timeoutx now w f d flags s =
        (Inr (), t_add_sorted
                   (t\<lparr>wakeup := (if dlt (dadd (wakeup t) w) (Fin now) then dadd (Fin now) w
                                  else dadd (wakeup t) w)\<rparr>) s)"
    by (simp add: libt_add_timeoutx_def Let_def)
next
  assume "LIBT_REPEAT \<in> flags"
  then show "update_wakeup now w flags old =
          (if dlt (dadd old w) (Fin now) then dadd (Fin now) w else dadd old w)"
    by (simp add: update_wakeup_def)
next
  show "dadd (Fin a) (Fin b) = fl (a + b)" by simp
next
  assume "heap_ok s" "unique_ids s" "t \<in> set (timers s)"
    "\<forall>st. filter (touches (fn t) (dat t)) (cb (fn t) (dat t) st) = [Add nw w (fn t) (dat t) flags]"
    "\<forall>f' d' st. (f', d') \<noteq> (fn t, dat t) \<longrightarrow>
                (\<forall>c \<in> set (cb f' d' st). \<not> touches (fn t) (dat t) c)"
    "\<not> isnan w" "LIBT_MOD \<in> flags" "libt_flush cb now s = Some (cnt, s')"
  then show "\<exists>ext. called s' = called s @ ext
           \<and> filter (same_id (fn t) (dat t)) (timers s' @ tmptimers s')
               = [t\<lparr>wakeup := (update_wakeup nw w flags ^^ count_list ext (fn t, dat t))
                                 (wakeup t)\<rparr>]
           \<and> (\<not> due (flush_ref now) t \<longrightarrow> (fn t, dat t) \<notin> set ext)
           \<and> (dgt (update_wakeup nw w flags (wakeup t)) (flush_ref now) \<longrightarrow>
                count_list ext (fn t, dat t) \<le> 1)"
    by (intro libt_flush_repeat)
next
  assume a: "heap_ok s" "unique_ids s" "t \<in> set (timers s)"
    "\<forall>st. filter (touches (fn t) (dat t)) (cb (fn t) (dat t) st) = [Add nw w (fn t) (dat t) flags]"
    "\<forall>f' d' st. (f', d') \<noteq> (fn t, dat t) \<longrightarrow>
                (\<forall>c \<in> set (cb f' d' st). \<not> touches (fn t) (dat t) c)"
    "\<not> isnan w" "LIBT_MOD \<in> flags" "libt_flush cb now s = Some (cnt, s')"
    and inv: "(fn t, dat t) \<in> set (drop (length (called s)) (called s'))"
    and later: "dgt (update_wakeup nw w flags (wakeup t)) (flush_ref now)"
  from libt_flush_repeat [OF a(4,5,6,7,8,1,2,3)] obtain ext where
    e: "called s' = called s @ ext"
      "filter (same_id (fn t) (dat t)) (timers s' @ tmptimers s')
         = [t\<lparr>wakeup := (update_wakeup nw w flags ^^ count_list ext (fn t, dat t)) (wakeup t)\<rparr>]"
      "dgt (update_wakeup nw w flags (wakeup t)) (flush_ref now) \<longrightarrow>
         count_list ext (fn t, dat t) \<le> 1"
    by blast
  from e(1) have ext: "drop (length (called s)) (called s') = ext" by simp
  from inv ext have "count_list ext (fn t, dat t) \<noteq> 0" by (simp add: count_list_0_iff)
  with e(3) later have one: "count_list ext (fn t, dat t) = 1" by simp
  with e(2) ext
  show "filter (same_id (fn t) (dat t)) (timers s' @ tmptimers s')
          = [t\<lparr>wakeup := update_wakeup nw w flags (wakeup t)\<rparr>]"
    and "count_list (drop (length (called s)) (called s')) (fn t, dat t) = 1"
    by simp_all
qed

theorem repeat_update_witness:
  "libt_flush (\<lambda>f d st. [Add 2.5 (Fin 5) f d {LIBT_MOD, LIBT_REPEAT}]) 2.5
        \<lparr>timers = [\<lparr>addr = 1, fn = 1, dat = 0, wakeup = Fin 1\<rparr>,
                   \<lparr>addr = 2, fn = 2, dat = 0, wakeup = Fin 2\<rparr>,
                   \<lparr>addr = 0, fn = 3, dat = 0, wakeup = Fin 3\<rparr>],
         tmptimers = [], brk = 3, freed = [], called = []\<rparr>
       = Some (2, \<lparr>timers = [\<lparr>addr = 0, fn = 3, dat = 0, wakeup = Fin 3\<rparr>,
                              \<lparr>addr = 1, fn = 1, dat = 0, wakeup = Fin 6\<rparr>,
                              \<lparr>addr = 2, fn = 2, dat = 0, wakeup = Fin 7\<rparr>],
                   tmptimers = [], brk = 3, freed = [], called = [(1, 0), (2, 0)]\<rparr>)
   \<and> filter (same_id 1 0)
        [\<lparr>addr = 0, fn = 3, dat = 0, wakeup = Fin 3\<rparr>, \<lparr>addr = 1, fn = 1, dat = 0, wakeup = Fin 6\<rparr>,
         \<lparr>addr = 2, fn = 2, dat = 0, wakeup = Fin 7\<rparr>]
       = [\<lparr>addr = 1, fn = 1, dat = 0, wakeup = Fin 6\<rparr>]
   \<and> count_list [(1 :: nat, 0 :: nat), (2, 0)] (1, 0) = 1
   \<and> update_wakeup 2.5 (Fin 5) {LIBT_MOD, LIBT_REPEAT} (Fin 1) = Fin 6
   \<and> update_wakeup 10 (Fin 5) {LIBT_MOD, LIBT_REPEAT} (Fin 1) = Fin 15"
proof -
  let ?p = "\<lambda>(f :: nat) (d :: nat) (st :: libt). [Add 2.5 (Fin 5) f d {LIBT_MOD, LIBT_REPEAT}]"
  let ?a = "\<lparr>addr = 1, fn = 1, dat = 0, wakeup = Fin 1\<rparr>"
  let ?b = "\<lparr>addr = 2, fn = 2, dat = 0, wakeup = Fin 2\<rparr>"
  let ?c = "\<lparr>addr = 0, fn = 3, dat = 0, wakeup = Fin 3\<rparr>"
  let ?s = "\<lparr>timers = [?a, ?b, ?c], tmptimers = [], brk = 3, freed = [], called = []\<rparr>"
  let ?s2 = "\<lparr>timers = [?c, ?a\<lparr>wakeup := Fin 6\<rparr>, ?b\<lparr>wakeup := Fin 7\<rparr>], tmptimers = [],
              brk = 3, freed = [], called = [(1, 0), (2, 0)]\<rparr>"
  let ?F = "{LIBT_MOD, LIBT_REPEAT}"
  note inst = repeat_update [where s = ?s and cb = ?p and now = "2.5" and nw = "2.5" and t = ?a
      and w = "Fin 5" and flags = ?F and cnt = 2 and s' = ?s2 and f = 1 and d = 0
      and old = "Fin 1" and a = 1 and b = 5]
  note past = repeat_update [where s = ?s and cb = ?p and now = 10 and nw = "2.5" and t = ?a
      and w = "Fin 5" and flags = ?F and cnt = 2 and s' = ?s2 and f = 1 and d = 0
      and old = "Fin 1" and a = 1 and b = 5]
  have h: "heap_ok ?s" "unique_ids ?s" "?a \<in> set (timers ?s)"
    by (simp_all add: heap_ok_def unique_ids_def live_def ident_def)
  have cbs: "\<forall>st. filter (touches (fn ?a) (dat ?a)) (?p (fn ?a) (dat ?a) st)
                = [Add 2.5 (Fin 5) (fn ?a) (dat ?a) ?F]"
    "\<forall>f' d' st. (f', d') \<noteq> (fn ?a, dat ?a) \<longrightarrow>
                (\<forall>c \<in> set (?p f' d' st). \<not> touches (fn ?a) (dat ?a) c)"
    "\<not> isnan (Fin 5)" "LIBT_MOD \<in> ?F" "LIBT_REPEAT \<in> ?F"
    by auto
  have e2: "libt_flush ?p 2.5 ?s = Some (2, ?s2)"
    by (simp add: run_defs flush_ref_at_2_5 fl_small_values)
  from inst cbs(5) have u1: "update_wakeup 2.5 (Fin 5) ?F (Fin 1) =
      (if dlt (dadd (Fin 1) (Fin 5)) (Fin 2.5) then dadd (Fin 2.5) (Fin 5)
       else dadd (Fin 1) (Fin 5))"
    by blast
  then have u1': "update_wakeup 2.5 (Fin 5) ?F (Fin 1) = Fin 6"
    by (simp add: fl_small_values)
  from past cbs(5) have "update_wakeup 10 (Fin 5) ?F (Fin 1) =
      (if dlt (dadd (Fin 1) (Fin 5)) (Fin 10) then dadd (Fin 10) (Fin 5)
       else dadd (Fin 1) (Fin 5))"
    by blast
  then have u2': "update_wakeup 10 (Fin 5) ?F (Fin 1) = Fin 15"
    by (simp add: fl_small_values)
  have inv: "(fn ?a, dat ?a) \<in> set (drop (length (called ?s)) (called ?s2))" by simp
  have later: "dgt (update_wakeup 2.5 (Fin 5) ?F (wakeup ?a)) (flush_ref 2.5)"
    using u1' by (simp add: flush_ref_at_2_5)
  from inst h cbs(1-4) e2 inv later
  have "filter (same_id (fn ?a) (dat ?a)) (timers ?s2 @ tmptimers ?s2)
          = [?a\<lparr>wakeup := update_wakeup 2.5 (Fin 5) ?F (wakeup ?a)\<rparr>]
        \<and> count_list (drop (length (called ?s)) (called ?s2)) (fn ?a, dat ?a) = 1"
    by blast
  with u1' u2' e2 show ?thesis by simp
qed

section \<open>A callback that registers its own identity again\<close>

text \<open>
  Unless it cancels the identity, a call leaves the record of an identity on the lists;
  it leaves it on the pending list if it was there, and an update of the identity puts
  it there.
\<close>

lemma kept_run_call:
  assumes h: "heap_ok s" and u: "unique_ids s" and c: "c \<noteq> Remove (fn x) (dat x)"
    and x: "x \<in> set (live s)"
  shows "\<exists>x'. x' \<in> set (live (run_call c s)) \<and> addr x' = addr x \<and> fn x' = fn x \<and> dat x' = dat x
           \<and> (x \<in> set (timers s) \<longrightarrow> x' \<in> set (timers (run_call c s)))
           \<and> (\<forall>nw w flags. c = Add nw w (fn x) (dat x) flags \<and> \<not> isnan w \<and> LIBT_MOD \<in> flags
                 \<longrightarrow> x' \<in> set (timers (run_call c s)))"
proof (cases "touches (fn x) (dat x) c")
  case False
  from untouched_run_call [OF h x False] x
  have "x \<in> set (live (run_call c s))"
    "x \<in> set (timers s) \<longrightarrow> x \<in> set (timers (run_call c s))"
    by (auto simp: live_def)
  moreover have "\<forall>nw w flags. c \<noteq> Add nw w (fn x) (dat x) flags" using False by auto
  ultimately show ?thesis by blast
next
  case True
  with c obtain nw w flags where cdef: "c = Add nw w (fn x) (dat x) flags"
    by (cases c) auto
  have found: "t_find (fn x) (dat x) s = Some x" using u x by (rule t_find_in_tmp)
  show ?thesis
  proof (cases "isnan w \<or> LIBT_MOD \<notin> flags")
    case True
    with found have "run_call c s = s" by (auto simp: cdef libt_add_timeoutx_def)
    with x True cdef show ?thesis by auto
  next
    case False
    let ?x' = "x\<lparr>wakeup := update_wakeup nw w flags (wakeup x)\<rparr>"
    from False have "?x' \<in> set (timers (run_call c s))"
      unfolding cdef by (intro self_update_run_call [OF u x]) simp_all
    then have "?x' \<in> set (live (run_call c s))" "?x' \<in> set (timers (run_call c s))"
      by (simp_all add: live_def)
    moreover have "addr ?x' = addr x" "fn ?x' = fn x" "dat ?x' = dat x" by simp_all
    ultimately show ?thesis by blast
  qed
qed

lemma kept_run_calls:
  "heap_ok s \<Longrightarrow> unique_ids s \<Longrightarrow> Remove f d \<notin> set cs \<Longrightarrow>
   x \<in> set (live s) \<Longrightarrow> fn x = f \<Longrightarrow> dat x = d \<Longrightarrow>
   x \<in> set (timers s)
     \<or> (\<exists>nw w flags. Add nw w f d flags \<in> set cs \<and> \<not> isnan w \<and> LIBT_MOD \<in> flags) \<Longrightarrow>
   \<exists>x' \<in> set (timers (run_calls cs s)). addr x' = addr x \<and> fn x' = f \<and> dat x' = d"
proof (induction cs arbitrary: s x)
  case Nil
  then show ?case by auto
next
  case (Cons c cs)
  have h1: "heap_ok (run_call c s)" using Cons.prems(1) by (rule heap_ok_run_call)
  have u1: "unique_ids (run_call c s)" using Cons.prems(2) by (rule unique_ids_run_call)
  from Cons.prems(3,5,6) have c: "c \<noteq> Remove (fn x) (dat x)" and cs: "Remove f d \<notin> set cs"
    by auto
  from kept_run_call [OF Cons.prems(1,2) c Cons.prems(4)] obtain x' where
    x': "x' \<in> set (live (run_call c s))" "addr x' = addr x" "fn x' = fn x" "dat x' = dat x"
      "x \<in> set (timers s) \<longrightarrow> x' \<in> set (timers (run_call c s))"
      "\<forall>nw w flags. c = Add nw w (fn x) (dat x) flags \<and> \<not> isnan w \<and> LIBT_MOD \<in> flags
                 \<longrightarrow> x' \<in> set (timers (run_call c s))"
    by blast
  from Cons.prems(7) consider
    (pend) "x \<in> set (timers s)"
    | (head) nw w flags where "c = Add nw w f d flags" "\<not> isnan w" "LIBT_MOD \<in> flags"
    | (tail) "\<exists>nw w flags. Add nw w f d flags \<in> set cs \<and> \<not> isnan w \<and> LIBT_MOD \<in> flags"
    by auto
  then have "x' \<in> set (timers (run_call c s))
     \<or> (\<exists>nw w flags. Add nw w f d flags \<in> set cs \<and> \<not> isnan w \<and> LIBT_MOD \<in> flags)"
  proof cases
    case pend
    with x'(5) show ?thesis by blast
  next
    case head
    with x'(6) Cons.prems(5,6) show ?thesis by blast
  next
    case tail
    then show ?thesis ..
  qed
  from Cons.IH [OF h1 u1 cs x'(1) _ _ this] x'(2,3,4) Cons.prems(5,6)
  show ?case by simp
qed

lemma invoke_keeps_pending:
  assumes norem: "\<forall>f' d' st. Remove f d \<notin> set (cb f' d' st)"
    and self: "\<forall>st. \<exists>nw w flags. Add nw w f d flags \<in> set (cb f d st)
                 \<and> \<not> isnan w \<and> LIBT_MOD \<in> flags"
    and h: "heap_ok s" and u: "unique_ids s"
    and x: "x \<in> set (timers s)" "addr x = a" "fn x = f" "dat x = d"
    and ts: "timers s = v # ts"
  shows "\<exists>x' \<in> set (timers (invoke cb v (t_add_tmp v s))). addr x' = a \<and> fn x' = f \<and> dat x' = d"
proof -
  let ?s1 = "t_add_tmp v s"
  let ?s1c = "?s1\<lparr>called := called ?s1 @ [(fn v, dat v)]\<rparr>"
  from h have dd: "distinct (map addr (live s))" by (simp add: heap_ok_def)
  have s1: "?s1 = s\<lparr>timers := ts, tmptimers := v # tmptimers s\<rparr>"
    by (rule t_add_tmp_head [OF ts dd])
  have h1: "heap_ok ?s1c" and u1: "unique_ids ?s1c"
    using h u ts by (simp_all add: heap_ok_t_add_tmp unique_ids_t_add_tmp)
  have xl: "x \<in> set (live ?s1c)" using x(1) ts unfolding s1 by (auto simp: live_def)
  have nr: "Remove f d \<notin> set (cb (fn v) (dat v) ?s1)" using norem by blast
  have "x \<in> set (timers ?s1c)
     \<or> (\<exists>nw w flags. Add nw w f d flags \<in> set (cb (fn v) (dat v) ?s1)
           \<and> \<not> isnan w \<and> LIBT_MOD \<in> flags)"
  proof (cases "x = v")
    case True
    with self x(3,4) show ?thesis by auto
  next
    case False
    with x(1) ts have "x \<in> set (timers ?s1c)" unfolding s1 by auto
    then show ?thesis ..
  qed
  from kept_run_calls [OF h1 u1 nr xl x(3,4) this] x(2)
  show ?thesis by (simp add: invoke_def)
qed

lemma libt_flush_rearm:
  assumes norem: "\<forall>f' d' st. Remove (fn t) (dat t) \<notin> set (cb f' d' st)"
    and self: "\<forall>st. \<exists>nw w flags. Add nw w (fn t) (dat t) flags \<in> set (cb (fn t) (dat t) st)
                 \<and> \<not> isnan w \<and> LIBT_MOD \<in> flags"
    and h: "heap_ok s" and u: "unique_ids s" and t: "t \<in> set (timers s)"
    and run: "libt_flush cb now s = Some (cnt, s')"
  shows "(\<exists>x. filter (same_id (fn t) (dat t)) (timers s' @ tmptimers s') = [x]
              \<and> addr x = addr t \<and> x \<in> set (timers s'))
         \<and> addr t \<notin> set (freed s') \<and> tmptimers s' = [] \<and> heap_ok s' \<and> unique_ids s'"
proof -
  let ?I = "\<lambda>st. heap_ok st \<and> unique_ids st
              \<and> (\<exists>x \<in> set (timers st). addr x = addr t \<and> fn x = fn t \<and> dat x = dat t)"
  from run obtain s1 where
    loop: "flush_loop cb (flush_ref now) s 0 = Some (cnt, s1)" and s': "s' = flush_cleanup s1"
    by (auto simp: libt_flush_def split: option.splits)
  have "?I (snd (cnt, s1))"
  proof (rule flush_loop_invariant [where I = ?I, OF _ loop])
    show "?I s" using h u t by blast
  next
    fix st v ts
    assume i: "?I st" and ts: "timers st = v # ts"
    then obtain x where x: "x \<in> set (timers st)" "addr x = addr t" "fn x = fn t" "dat x = dat t"
      by blast
    from i have hs: "heap_ok st" and us: "unique_ids st" by simp_all
    from invoke_keeps_pending [OF norem self hs us x ts]
    show "?I (invoke cb v (t_add_tmp v st))"
      using hs us ts by (simp add: heap_ok_invoke unique_ids_invoke heap_ok_t_add_tmp
          unique_ids_t_add_tmp)
  qed
  then obtain x where h1: "heap_ok s1" and u1: "unique_ids s1"
    and x: "x \<in> set (timers s1)" "addr x = addr t" "fn x = fn t" "dat x = dat t"
    by auto
  from h1 have d: "distinct (map addr (live s1))" by (simp add: heap_ok_def)
  from flush_cleanup_all [OF d]
  have fin: "timers s' = timers s1" "tmptimers s' = []"
    "freed s' = freed s1 @ map addr (tmptimers s1)"
    by (simp_all add: s')
  from u1 have di: "distinct (map ident (timers s1))" by (simp add: unique_ids_def live_def)
  from filter_same_id_unique [OF di x(1), of "fn t" "dat t"] x(3,4)
  have one: "filter (same_id (fn t) (dat t)) (timers s' @ tmptimers s') = [x]"
    by (simp add: fin same_id_def)
  have "addr x \<notin> set (freed s1)" using h1 x(1) by (auto simp: heap_ok_def live_def)
  moreover have "addr x \<notin> addr ` set (tmptimers s1)" using d x(1) by (auto simp: live_def)
  ultimately have nf: "addr t \<notin> set (freed s')" using x(2) by (simp add: fin)
  have h': "heap_ok s'"
    unfolding s'
  proof (rule flush_cleanup_invariant [where I = heap_ok])
    show "heap_ok s1" by (rule h1)
  next
    fix s :: libt and t ts
    assume "heap_ok s" "tmptimers s = t # ts"
    then show "heap_ok (free t (t_del t s))" by (intro heap_ok_free) (simp_all add: live_def)
  qed
  have u': "unique_ids s'" using di by (simp add: unique_ids_def live_def fin)
  from one x nf fin h' u' show ?thesis by auto
qed

lemma rearm_call:
  assumes h: "heap_ok s" and u: "unique_ids s" and t: "t \<in> set (tmptimers s)"
    and w: "\<not> isnan w" and m: "LIBT_MOD \<in> flags"
  shows "libt_add_timeoutx now w (fn t) (dat t) flags s =
           (Inr (), s\<lparr>timers := t_scan (t\<lparr>wakeup := update_wakeup now w flags (wakeup t)\<rparr>) (timers s),
                       tmptimers := unlink (addr t) (tmptimers s)\<rparr>)"
    and "\<forall>x \<in> set (unlink (addr t) (tmptimers s)). addr x \<noteq> addr t \<and> \<not> same_id (fn t) (dat t) x"
proof -
  from t have tl: "t \<in> set (live s)" by (simp add: live_def)
  from h t have "\<forall>x \<in> set (timers s). addr x \<noteq> addr t"
    by (auto simp: heap_ok_def live_def)
  then have un: "unlink (addr t) (timers s) = timers s" by (rule unlink_id)
  from add_timeoutx_found [OF t_find_in_tmp [OF u tl] w m, of now]
  show "libt_add_timeoutx now w (fn t) (dat t) flags s =
           (Inr (), s\<lparr>timers := t_scan (t\<lparr>wakeup := update_wakeup now w flags (wakeup t)\<rparr>) (timers s),
                       tmptimers := unlink (addr t) (tmptimers s)\<rparr>)"
    by (simp add: t_add_sorted_def t_del_def Let_def un)
  show "\<forall>x \<in> set (unlink (addr t) (tmptimers s)). addr x \<noteq> addr t \<and> \<not> same_id (fn t) (dat t) x"
  proof
    fix x assume "x \<in> set (unlink (addr t) (tmptimers s))"
    then have x: "x \<in> set (tmptimers s)" "addr x \<noteq> addr t" by simp_all
    then have "x \<in> set (live s)" "x \<noteq> t" by (auto simp: live_def)
    with unique_ids_same [OF u tl] have "ident x \<noteq> ident t" by blast
    with x(2) show "addr x \<noteq> addr t \<and> \<not> same_id (fn t) (dat t) x"
      by (auto simp: same_id_def ident_def)
  qed
qed

text \<open>
  C5, as stated: a callback that registers its own identity again during a flush creates
  a fresh pending entry, and the record left in \<open>tmptimers\<close> is freed by the sweep. The
  lookup finds the record in \<open>tmptimers\<close>, and the update moves that record back to the
  pending list: after the flush the pending timer has the address of the old record,
  nothing was allocated (\<open>brk\<close> is unchanged) and nothing was freed.
\<close>

theorem rearm_same_record_counterexample:
  "libt_flush (\<lambda>f d st. [Add 2 (Fin 10) f d {LIBT_ADD, LIBT_MOD}]) 2
     \<lparr>timers = [\<lparr>addr = 0, fn = 1, dat = 0, wakeup = Fin 1\<rparr>], tmptimers = [], brk = 1,
      freed = [], called = []\<rparr>
   = Some (1, \<lparr>timers = [\<lparr>addr = 0, fn = 1, dat = 0, wakeup = Fin 10\<rparr>], tmptimers = [],
               brk = 1, freed = [], called = [(1, 0)]\<rparr>)"
  by (simp add: run_defs flush_ref_at_2)

text \<open>
  C5, amended. In a state where the records of the two lists are distinct, with one
  timer for an identity: a scheduling call for the identity of a record on \<open>tmptimers\<close>,
  with UPDATE among the flags and a time that is a number, succeeds and moves that same
  record to the pending list with the new wakeup; nothing is allocated or freed, and no
  record of the identity stays on \<open>tmptimers\<close>. So when the callback of a pending timer
  registers its own identity again in this way each time it is invoked, and no callback
  cancels that identity (the callbacks are otherwise arbitrary), a flush that returns
  leaves the same record as the one timer of the identity, on the pending list and not
  freed: the sweep frees the records that are still on \<open>tmptimers\<close>, and only those.
\<close>

theorem rearm_same_record:
  "(heap_ok s \<longrightarrow> unique_ids s \<longrightarrow> t \<in> set (tmptimers s) \<longrightarrow> \<not> isnan w \<longrightarrow> LIBT_MOD \<in> flags \<longrightarrow>
      libt_add_timeoutx nw w (fn t) (dat t) flags s =
        (Inr (), s\<lparr>timers := t_scan (t\<lparr>wakeup := update_wakeup nw w flags (wakeup t)\<rparr>) (timers s),
                    tmptimers := unlink (addr t) (tmptimers s)\<rparr>)
      \<and> (\<forall>x \<in> set (unlink (addr t) (tmptimers s)).
            addr x \<noteq> addr t \<and> \<not> same_id (fn t) (dat t) x))
   \<and> (heap_ok s \<longrightarrow> unique_ids s \<longrightarrow> t \<in> set (timers s) \<longrightarrow>
        (\<forall>f' d' st. Remove (fn t) (dat t) \<notin> set (cb f' d' st)) \<longrightarrow>
        (\<forall>st. \<exists>nw w flags. Add nw w (fn t) (dat t) flags \<in> set (cb (fn t) (dat t) st)
                 \<and> \<not> isnan w \<and> LIBT_MOD \<in> flags) \<longrightarrow>
        libt_flush cb now s = Some (cnt, s') \<longrightarrow>
        (\<exists>x. filter (same_id (fn t) (dat t)) (timers s' @ tmptimers s') = [x]
              \<and> addr x = addr t \<and> x \<in> set (timers s'))
        \<and> addr t \<notin> set (freed s') \<and> tmptimers s' = [] \<and> heap_ok s' \<and> unique_ids s')
   \<and> (heap_ok s \<longrightarrow>
        flush_cleanup s = s\<lparr>tmptimers := [], freed := freed s @ map addr (tmptimers s)\<rparr>)"
proof (intro conjI impI)
  assume a: "heap_ok s" "unique_ids s" "t \<in> set (tmptimers s)" "\<not> isnan w" "LIBT_MOD \<in> flags"
  from rearm_call [OF a]
  show "libt_add_timeoutx nw w (fn t) (dat t) flags s =
        (Inr (), s\<lparr>timers := t_scan (t\<lparr>wakeup := update_wakeup nw w flags (wakeup t)\<rparr>) (timers s),
                    tmptimers := unlink (addr t) (tmptimers s)\<rparr>)"
    and "\<forall>x \<in> set (unlink (addr t) (tmptimers s)).
            addr x \<noteq> addr t \<and> \<not> same_id (fn t) (dat t) x"
    by blast+
next
  assume a: "heap_ok s" "unique_ids s" "t \<in> set (timers s)"
    "\<forall>f' d' st. Remove (fn t) (dat t) \<notin> set (cb f' d' st)"
    "\<forall>st. \<exists>nw w flags. Add nw w (fn t) (dat t) flags \<in> set (cb (fn t) (dat t) st)
                 \<and> \<not> isnan w \<and> LIBT_MOD \<in> flags"
    "libt_flush cb now s = Some (cnt, s')"
  from libt_flush_rearm [OF a(4,5,1,2,3,6)]
  show "\<exists>x. filter (same_id (fn t) (dat t)) (timers s' @ tmptimers s') = [x]
              \<and> addr x = addr t \<and> x \<in> set (timers s')"
    and "addr t \<notin> set (freed s')" and "tmptimers s' = []" and "heap_ok s'" and "unique_ids s'"
    by blast+
next
  assume "heap_ok s"
  then have "distinct (map addr (live s))" by (simp add: heap_ok_def)
  then show "flush_cleanup s = s\<lparr>tmptimers := [], freed := freed s @ map addr (tmptimers s)\<rparr>"
    by (rule flush_cleanup_all)
qed

theorem rearm_same_record_witness:
  "libt_flush (\<lambda>f d st. [Add 2.5 (Fin 10) f d {LIBT_ADD, LIBT_MOD}]) 2.5
        \<lparr>timers = [\<lparr>addr = 1, fn = 1, dat = 0, wakeup = Fin 1\<rparr>,
                   \<lparr>addr = 2, fn = 2, dat = 0, wakeup = Fin 2\<rparr>,
                   \<lparr>addr = 0, fn = 3, dat = 0, wakeup = Fin 3\<rparr>],
         tmptimers = [], brk = 3, freed = [], called = []\<rparr>
       = Some (2, \<lparr>timers = [\<lparr>addr = 0, fn = 3, dat = 0, wakeup = Fin 3\<rparr>,
                              \<lparr>addr = 1, fn = 1, dat = 0, wakeup = Fin 10\<rparr>,
                              \<lparr>addr = 2, fn = 2, dat = 0, wakeup = Fin 10\<rparr>],
                   tmptimers = [], brk = 3, freed = [], called = [(1, 0), (2, 0)]\<rparr>)
   \<and> (\<exists>x. filter (same_id 1 0)
              [\<lparr>addr = 0, fn = 3, dat = 0, wakeup = Fin 3\<rparr>,
               \<lparr>addr = 1, fn = 1, dat = 0, wakeup = Fin 10\<rparr>,
               \<lparr>addr = 2, fn = 2, dat = 0, wakeup = Fin 10\<rparr>] = [x] \<and> addr x = 1)
   \<and> libt_add_timeoutx 2.5 (Fin 10) 1 0 {LIBT_ADD, LIBT_MOD}
        \<lparr>timers = [\<lparr>addr = 2, fn = 2, dat = 0, wakeup = Fin 2\<rparr>,
                   \<lparr>addr = 0, fn = 3, dat = 0, wakeup = Fin 3\<rparr>],
         tmptimers = [\<lparr>addr = 1, fn = 1, dat = 0, wakeup = Fin 1\<rparr>],
         brk = 3, freed = [], called = [(1, 0)]\<rparr>
       = (Inr (), \<lparr>timers = [\<lparr>addr = 2, fn = 2, dat = 0, wakeup = Fin 2\<rparr>,
                              \<lparr>addr = 0, fn = 3, dat = 0, wakeup = Fin 3\<rparr>,
                              \<lparr>addr = 1, fn = 1, dat = 0, wakeup = Fin 10\<rparr>],
                   tmptimers = [], brk = 3, freed = [], called = [(1, 0)]\<rparr>)"
proof -
  let ?p = "\<lambda>(f :: nat) (d :: nat) (st :: libt). [Add 2.5 (Fin 10) f d {LIBT_ADD, LIBT_MOD}]"
  let ?a = "\<lparr>addr = 1, fn = 1, dat = 0, wakeup = Fin 1\<rparr>"
  let ?b = "\<lparr>addr = 2, fn = 2, dat = 0, wakeup = Fin 2\<rparr>"
  let ?c = "\<lparr>addr = 0, fn = 3, dat = 0, wakeup = Fin 3\<rparr>"
  let ?s = "\<lparr>timers = [?a, ?b, ?c], tmptimers = [], brk = 3, freed = [], called = []\<rparr>"
  let ?s2 = "\<lparr>timers = [?c, ?a\<lparr>wakeup := Fin 10\<rparr>, ?b\<lparr>wakeup := Fin 10\<rparr>], tmptimers = [],
              brk = 3, freed = [], called = [(1, 0), (2, 0)]\<rparr>"
  let ?m = "\<lparr>timers = [?b, ?c], tmptimers = [?a], brk = 3, freed = [], called = [(1, 0)]\<rparr>"
  let ?F = "{LIBT_ADD, LIBT_MOD}"
  note pass = rearm_same_record [where s = ?s and cb = ?p and now = "2.5" and nw = "2.5"
      and t = ?a and w = "Fin 10" and flags = ?F and cnt = 2 and s' = ?s2]
  note call = rearm_same_record [where s = ?m and cb = ?p and now = "2.5" and nw = "2.5"
      and t = ?a and w = "Fin 10" and flags = ?F and cnt = 2 and s' = ?s2]
  have h: "heap_ok ?s" "unique_ids ?s" "?a \<in> set (timers ?s)"
    "heap_ok ?m" "unique_ids ?m" "?a \<in> set (tmptimers ?m)"
    by (simp_all add: heap_ok_def unique_ids_def live_def ident_def)
  have cbs: "\<forall>f' d' st. Remove (fn ?a) (dat ?a) \<notin> set (?p f' d' st)"
    "\<not> isnan (Fin 10)" "LIBT_MOD \<in> ?F"
    by simp_all
  have self: "\<forall>st. \<exists>nw w flags. Add nw w (fn ?a) (dat ?a) flags \<in> set (?p (fn ?a) (dat ?a) st)
                 \<and> \<not> isnan w \<and> LIBT_MOD \<in> flags"
  proof
    fix st :: libt
    have "Add 2.5 (Fin 10) (fn ?a) (dat ?a) ?F \<in> set (?p (fn ?a) (dat ?a) st)
          \<and> \<not> isnan (Fin 10) \<and> LIBT_MOD \<in> ?F"
      by simp
    then show "\<exists>nw w flags. Add nw w (fn ?a) (dat ?a) flags \<in> set (?p (fn ?a) (dat ?a) st)
                 \<and> \<not> isnan w \<and> LIBT_MOD \<in> flags"
      by blast
  qed
  have e: "libt_flush ?p 2.5 ?s = Some (2, ?s2)"
    by (simp add: run_defs flush_ref_at_2_5)
  from pass h(1-3) cbs(1) self e
  have "\<exists>x. filter (same_id (fn ?a) (dat ?a)) (timers ?s2 @ tmptimers ?s2) = [x]
              \<and> addr x = addr ?a \<and> x \<in> set (timers ?s2)"
    by blast
  then have one: "\<exists>x. filter (same_id 1 0) [?c, ?a\<lparr>wakeup := Fin 10\<rparr>, ?b\<lparr>wakeup := Fin 10\<rparr>] = [x]
              \<and> addr x = 1"
    by (simp add: same_id_def)
  from call h(4-6) cbs(2,3)
  have "libt_add_timeoutx 2.5 (Fin 10) (fn ?a) (dat ?a) ?F ?m =
        (Inr (), ?m\<lparr>timers := t_scan (?a\<lparr>wakeup := update_wakeup 2.5 (Fin 10) ?F (wakeup ?a)\<rparr>)
                                  (timers ?m),
                     tmptimers := unlink (addr ?a) (tmptimers ?m)\<rparr>)"
    by blast
  then have two: "libt_add_timeoutx 2.5 (Fin 10) 1 0 ?F ?m =
        (Inr (), \<lparr>timers = [?b, ?c, ?a\<lparr>wakeup := Fin 10\<rparr>], tmptimers = [], brk = 3,
                   freed = [], called = [(1, 0)]\<rparr>)"
    by (simp add: update_wakeup_def unlink_def t_add_def)
  from e one two show ?thesis by (intro conjI) simp_all
qed


end
